theory Spec2Isabelle
  imports Complex_Main "HOL-Library.Word" "HOL-Library.AList" "HOL-Library.Product_Lexorder"
    "HOL-Library.Multiset" "HOL-Library.Code_Target_Nat" "HOL-Library.Sublist"
begin

unbundle bit_operations_syntax

section \<open>Shared data: bytes, errors, integer serialisation, frequency counting\<close>

text \<open>
  A Python \<open>bytes\<close> value is a list of 8-bit words. Python integers are unbounded:
  counts and lengths are \<open>nat\<close>, the interval bounds of the range coder are \<open>int\<close>.
  A \<open>str\<close> of the characters 0 and 1 (the only strings the coders build) is a list
  of bits, \<open>True\<close> for the character 1. A \<open>dict\<close> is an association list with
  distinct keys in insertion order; \<open>d[k] = v\<close> is \<open>AList.update k v d\<close>.
  Every exception the coders can raise is a constructor of \<open>error\<close>, and a function
  that can raise returns \<open>error + 'a\<close>.
\<close>

type_synonym byte = "8 word"
type_synonym bitstr = "bool list"

datatype error = ValueError | OverflowError | IndexError | ZeroDivisionError | UnboundLocalError

text \<open>The \<open>k\<close> low-order bytes of \<open>n\<close>, most significant first.\<close>

fun big_endian :: "nat \<Rightarrow> nat \<Rightarrow> byte list" where
  "big_endian n 0 = []"
| "big_endian n (Suc k) = big_endian (n div 256) k @ [of_nat n]"

text \<open>\<open>n.to_bytes(k, "big")\<close>: OverflowError when \<open>n\<close> does not fit in \<open>k\<close> bytes.\<close>

definition to_bytes :: "nat \<Rightarrow> nat \<Rightarrow> error + byte list" where
  "to_bytes n k = (if n < 256 ^ k then Inr (big_endian n k) else Inl OverflowError)"

text \<open>\<open>int.from_bytes(bs, "big")\<close>, defined on every byte string (0 on the empty one).\<close>

definition from_bytes :: "byte list \<Rightarrow> nat" where
  "from_bytes bs = foldl (\<lambda>a b. a * 256 + unat b) 0 bs"

text \<open>\<open>bytes([n])\<close>: ValueError unless \<open>n\<close> is in \<open>range(0, 256)\<close>.\<close>

definition bytes1 :: "nat \<Rightarrow> error + byte list" where
  "bytes1 n = (if n < 256 then Inr [of_nat n] else Inl ValueError)"

text \<open>The literal \<open>b"RUN"\<close>.\<close>

definition RUN :: "byte list" where
  "RUN = [82, 85, 78]"

text \<open>The slice \<open>xs[i:j]\<close> for \<open>0 \<le> i\<close>; it never raises.\<close>

definition slice :: "'a list \<Rightarrow> nat \<Rightarrow> nat \<Rightarrow> 'a list" where
  "slice xs i j = take (j - i) (drop i xs)"

text \<open>
  \<open>Counter(data)\<close>: each byte with its number of occurrences, keys in order of first
  occurrence.
\<close>

fun Counter_add :: "(byte \<times> nat) list \<Rightarrow> byte \<Rightarrow> (byte \<times> nat) list" where
  "Counter_add [] b = [(b, 1)]"
| "Counter_add ((k, c) # kvs) b =
     (if k = b then (k, c + 1) # kvs else (k, c) # Counter_add kvs b)"

definition Counter :: "byte list \<Rightarrow> (byte \<times> nat) list" where
  "Counter data = foldl Counter_add [] data"

text \<open>A lookup \<open>d[k]\<close> of a key that is present.\<close>

definition dict_get :: "('k \<times> 'v) list \<Rightarrow> 'k \<Rightarrow> 'v" where
  "dict_get d k = the (map_of d k)"

text \<open>\<open>m.update(other)\<close>.\<close>

definition dict_update :: "('k \<times> 'v) list \<Rightarrow> ('k \<times> 'v) list \<Rightarrow> ('k \<times> 'v) list" where
  "dict_update m other = foldl (\<lambda>m kv. AList.update (fst kv) (snd kv) m) m other"

section \<open>Huffman coder (coders/huffman.py)\<close>

subsection \<open>Tree nodes and their order\<close>

text \<open>
  \<open>_Node\<close> is built in two shapes only: \<open>_Node(f, s)\<close>, a leaf with a symbol and no
  children, and \<open>_Node(f, None, n1, n2)\<close>, an internal node with no symbol.
\<close>

datatype Node = Leaf nat byte | Branch nat Node Node

fun freq :: "Node \<Rightarrow> nat" where
  "freq (Leaf f s) = f"
| "freq (Branch f l r) = f"

text \<open>\<open>self.symbol or -1\<close>: \<open>-1\<close> when the symbol is \<open>None\<close>, and also when it is 0.\<close>

fun symbol_or_m1 :: "Node \<Rightarrow> int" where
  "symbol_or_m1 (Leaf f s) = (if s = 0 then - 1 else uint s)"
| "symbol_or_m1 (Branch f l r) = - 1"

text \<open>\<open>_Node.__lt__\<close>: tuples compare lexicographically.\<close>

definition Node_lt :: "Node \<Rightarrow> Node \<Rightarrow> bool" where
  "Node_lt a b \<longleftrightarrow> (freq a, symbol_or_m1 a) < (freq b, symbol_or_m1 b)"

subsection \<open>The heap operations of Python's heapq, as \<open>_build_tree\<close> calls them\<close>

text \<open>
  \<open>heapq._siftdown(heap, startpos, pos)\<close>: move the item at \<open>pos\<close> towards the root
  while it is less than its parent.
\<close>

function siftdown_loop :: "Node list \<Rightarrow> nat \<Rightarrow> Node \<Rightarrow> nat \<Rightarrow> Node list" where
  "siftdown_loop heap startpos newitem pos =
     (if pos > startpos then
        (let parentpos = (pos - 1) div 2;
             parent = heap ! parentpos
         in if Node_lt newitem parent
            then siftdown_loop (heap[pos := parent]) startpos newitem parentpos
            else heap[pos := newitem])
      else heap[pos := newitem])"
  by pat_completeness auto
termination
  by (relation "measure (\<lambda>(heap, startpos, newitem, pos). pos)") auto

declare siftdown_loop.simps [simp del]

definition siftdown :: "Node list \<Rightarrow> nat \<Rightarrow> nat \<Rightarrow> Node list" where
  "siftdown heap startpos pos = siftdown_loop heap startpos (heap ! pos) pos"

text \<open>
  \<open>heapq._siftup(heap, pos)\<close>: move the smaller child up until a leaf position is
  reached, put the item there, then sift it down towards \<open>pos\<close>.
\<close>

function siftup_loop :: "Node list \<Rightarrow> nat \<Rightarrow> nat \<Rightarrow> Node list \<times> nat" where
  "siftup_loop heap endpos pos =
     (let childpos = 2 * pos + 1
      in if childpos < endpos then
           (let rightpos = childpos + 1;
                childpos = (if rightpos < endpos \<and> \<not> Node_lt (heap ! childpos) (heap ! rightpos)
                            then rightpos else childpos)
            in siftup_loop (heap[pos := heap ! childpos]) endpos childpos)
         else (heap, pos))"
  by pat_completeness auto
termination
  by (relation "measure (\<lambda>(heap, endpos, pos). endpos - pos)") (auto simp: Let_def)

declare siftup_loop.simps [simp del]

definition siftup :: "Node list \<Rightarrow> nat \<Rightarrow> Node list" where
  "siftup heap pos =
     (let endpos = length heap;
          startpos = pos;
          newitem = heap ! pos;
          (heap, pos) = siftup_loop heap endpos pos;
          heap = heap[pos := newitem]
      in siftdown heap startpos pos)"

definition heappush :: "Node list \<Rightarrow> Node \<Rightarrow> Node list" where
  "heappush heap item = (let heap = heap @ [item] in siftdown heap 0 (length heap - 1))"

text \<open>
  \<open>heapq.heappop(heap)\<close> on a nonempty list: the item at index 0 and the list that is
  left. (On the empty list it raises IndexError; the caller below checks that.)
\<close>

definition heappop :: "Node list \<Rightarrow> Node \<times> Node list" where
  "heappop heap =
     (let lastelt = last heap;
          heap = butlast heap
      in if heap \<noteq> [] then
           (let returnitem = heap ! 0;
                heap = heap[0 := lastelt]
            in (returnitem, siftup heap 0))
         else (lastelt, heap))"

lemma length_siftdown_loop [simp]:
  "length (siftdown_loop heap startpos newitem pos) = length heap"
proof (induction heap startpos newitem pos rule: siftdown_loop.induct)
  case (1 heap startpos newitem pos)
  show ?case
    by (subst siftdown_loop.simps) (simp add: Let_def 1)
qed

lemma length_siftdown [simp]: "length (siftdown heap startpos pos) = length heap"
  by (simp add: siftdown_def)

lemma length_siftup_loop [simp]: "length (fst (siftup_loop heap endpos pos)) = length heap"
proof (induction heap endpos pos rule: siftup_loop.induct)
  case (1 heap endpos pos)
  show ?case
    by (subst siftup_loop.simps) (simp add: Let_def 1)
qed

lemma length_siftup [simp]: "length (siftup heap pos) = length heap"
proof -
  obtain h p where hp: "siftup_loop heap (length heap) pos = (h, p)"
    by (cases "siftup_loop heap (length heap) pos")
  have "length h = length heap"
    using length_siftup_loop [of heap "length heap" pos] by (simp add: hp)
  then show ?thesis
    by (simp add: siftup_def Let_def hp)
qed

lemma length_heappush [simp]: "length (heappush heap item) = Suc (length heap)"
  by (simp add: heappush_def Let_def)

lemma length_heappop [simp]: "length (snd (heappop heap)) = length heap - 1"
  by (cases heap rule: rev_cases) (simp_all add: heappop_def Let_def)

subsection \<open>\<open>_build_tree\<close>\<close>

function build_loop :: "Node list \<Rightarrow> Node list" where
  "build_loop heap =
     (if length heap > 1 then
        (let (n1, heap) = heappop heap;
             (n2, heap) = heappop heap
         in build_loop (heappush heap (Branch (freq n1 + freq n2) n1 n2)))
      else heap)"
  by pat_completeness auto
termination
proof (relation "measure length", goal_cases)
  case 1
  show ?case by simp
next
  case (2 heap x1 n1 h1 x2 n2 h2)
  have "length h1 = length heap - 1"
    using length_heappop [of heap] 2(2,3) by (metis snd_conv)
  moreover have "length h2 = length h1 - 1"
    using length_heappop [of h1] 2(4,5) by (metis snd_conv)
  ultimately show ?case
    using 2(1) by simp
qed

declare build_loop.simps [simp del]

text \<open>
  \<open>_build_tree(freq)\<close>. \<open>heappop\<close> of an empty heap raises IndexError; \<open>encode\<close>
  calls it with at least two entries.
\<close>

definition build_tree :: "(byte \<times> nat) list \<Rightarrow> error + Node" where
  "build_tree fr =
     (let heap = map (\<lambda>(s, f). Leaf f s) fr
      in if heap = [] then Inl IndexError
         else (let (x, heap) = heappop heap;
                   heap = heappush heap x;
                   heap = build_loop heap
               in Inr (heap ! 0)))"

subsection \<open>\<open>_build_code_map\<close> and \<open>_to_canonical\<close>\<close>

text \<open>
  \<open>_build_code_map(node, prefix)\<close>: a leaf gives the one-entry dict
  \<open>{symbol: prefix or "0"}\<close>, an internal node the dict of its left subtree updated
  with that of its right subtree.
\<close>

fun build_code_map :: "Node \<Rightarrow> bitstr \<Rightarrow> (byte \<times> bitstr) list" where
  "build_code_map (Leaf f s) pfx = [(s, if pfx = [] then [False] else pfx)]"
| "build_code_map (Branch f l r) pfx =
     (let m = [];
          m = dict_update m (build_code_map l (pfx @ [False]));
          m = dict_update m (build_code_map r (pfx @ [True]))
      in m)"

text \<open>\<open>format(n, "b")\<close>: the binary digits of \<open>n\<close>, most significant first.\<close>

function bin :: "nat \<Rightarrow> bitstr" where
  "bin n = (if n < 2 then [n = 1] else bin (n div 2) @ [odd n])"
  by pat_completeness auto
termination
  by (relation "measure id") auto

declare bin.simps [simp del]

text \<open>\<open>f"{code:0{ln}b}"\<close>: the digits, padded with zeros on the left to width \<open>ln\<close>.\<close>

definition format_0b :: "nat \<Rightarrow> nat \<Rightarrow> bitstr" where
  "format_0b code clen = (let ds = bin code in replicate (clen - length ds) False @ ds)"

text \<open>
  The loop of \<open>_to_canonical\<close> over \<open>order\<close>. The order is ascending in length, so
  the shift \<open>ln - prev_len\<close> is never negative.
\<close>

fun canonical_loop ::
  "(byte \<times> nat) list \<Rightarrow> byte list \<Rightarrow> nat \<Rightarrow> nat \<Rightarrow> (byte \<times> bitstr) list \<Rightarrow> (byte \<times> bitstr) list" where
  "canonical_loop lengths [] code prev_len canonical = canonical"
| "canonical_loop lengths (smb # order) code prev_len canonical =
     (let clen = dict_get lengths smb;
          code = push_bit (clen - prev_len) code;
          canonical = AList.update smb (format_0b code clen) canonical
      in canonical_loop lengths order (code + 1) clen canonical)"

definition to_canonical ::
  "(byte \<times> bitstr) list \<Rightarrow> (byte \<times> bitstr) list \<times> (byte \<times> nat) list" where
  "to_canonical code_map =
     (let lengths = map (\<lambda>(s, b). (s, length b)) code_map;
          order = sort_key (\<lambda>s. (dict_get lengths s, s)) (map fst code_map);
          canonical = canonical_loop lengths order 0 0 []
      in (canonical, lengths))"

subsection \<open>\<open>_pack_bits\<close> and \<open>encode\<close>\<close>

text \<open>\<open>int(chunk, 2)\<close> of a string of binary digits.\<close>

definition int2 :: "bitstr \<Rightarrow> nat" where
  "int2 chunk = foldl (\<lambda>a b. 2 * a + (if b then 1 else 0)) 0 chunk"

text \<open>The bytes \<open>_pack_bits\<close> writes: 8 bits per byte, the last chunk padded with zeros.\<close>

function pack_bits :: "bitstr \<Rightarrow> byte list" where
  "pack_bits bits =
     (if bits = [] then []
      else (let chunk = take 8 bits;
                chunk = chunk @ replicate (8 - length chunk) False
            in of_nat (int2 chunk) # pack_bits (drop 8 bits)))"
  by pat_completeness auto
termination
  by (relation "measure length") auto

declare pack_bits.simps [simp del]

text \<open>The header loop \<open>for s in canon: buf.write(bytes([s, lengths[s]]))\<close>.\<close>

fun write_pairs :: "byte list \<Rightarrow> (byte \<times> nat) list \<Rightarrow> error + byte list" where
  "write_pairs [] lengths = Inr []"
| "write_pairs (s # ss) lengths =
     (if dict_get lengths s < 256 then
        (case write_pairs ss lengths of
           Inl e \<Rightarrow> Inl e
         | Inr bs \<Rightarrow> Inr ([s, of_nat (dict_get lengths s)] @ bs))
      else Inl ValueError)"

definition HuffmanCoder_encode :: "byte list \<Rightarrow> error + byte list" where
  "HuffmanCoder_encode data =
     (if data = [] then Inr []
      else
        (let fr = Counter data
         in if length fr = 1 then
              (let smb = fst (hd fr)
               in case to_bytes (length data) 4 of
                    Inl e \<Rightarrow> Inl e
                  | Inr n4 \<Rightarrow> Inr (RUN @ [smb] @ n4))
            else
              (case build_tree fr of
                 Inl e \<Rightarrow> Inl e
               | Inr rt \<Rightarrow>
                  (let raw_map = build_code_map rt [];
                       (canon, lengths) = to_canonical raw_map
                   in case to_bytes (length data) 4 of
                        Inl e \<Rightarrow> Inl e
                      | Inr b_size \<Rightarrow>
                     (case bytes1 (length canon) of
                        Inl e \<Rightarrow> Inl e
                      | Inr b_count \<Rightarrow>
                     (case write_pairs (map fst canon) lengths of
                        Inl e \<Rightarrow> Inl e
                      | Inr b_pairs \<Rightarrow>
                     (let code_bits = concat (map snd canon)
                      in case to_bytes (length code_bits) 2 of
                        Inl e \<Rightarrow> Inl e
                      | Inr b_code_len \<Rightarrow>
                     (let payload_bits = concat (map (dict_get canon) data)
                      in case to_bytes (length payload_bits) 4 of
                        Inl e \<Rightarrow> Inl e
                      | Inr b_payload_len \<Rightarrow>
                          Inr (b_size @ b_count @ b_pairs @ b_code_len @ pack_bits code_bits
                               @ b_payload_len @ pack_bits payload_bits)))))))))"

subsection \<open>\<open>decode\<close>\<close>

text \<open>The header loop that reads \<open>leaf_cnt\<close> (symbol, length) pairs; \<open>mv[i]\<close> raises
  IndexError past the end.\<close>

fun read_pairs ::
  "byte list \<Rightarrow> nat \<Rightarrow> nat \<Rightarrow> byte list \<Rightarrow> byte list \<Rightarrow> error + (byte list \<times> byte list \<times> nat)" where
  "read_pairs mv 0 i symbols lengths = Inr (symbols, lengths, i)"
| "read_pairs mv (Suc k) i symbols lengths =
     (if i < length mv then
        (if i + 1 < length mv
         then read_pairs mv k (i + 2) (symbols @ [mv ! i]) (lengths @ [mv ! (i + 1)])
         else Inl IndexError)
      else Inl IndexError)"

text \<open>
  The loop that rebuilds the table from the pairs sorted by (length, symbol). It reads
  the pairs only: the iterator over \<open>canon_bits\<close> that the source creates is never
  advanced.
\<close>

fun table_loop ::
  "(byte \<times> byte) list \<Rightarrow> nat \<Rightarrow> nat \<Rightarrow> (bitstr \<times> byte) list \<Rightarrow> (bitstr \<times> byte) list" where
  "table_loop [] code prev_len table = table"
| "table_loop ((smb, l) # rest) code prev_len table =
     (let clen = unat l;
          code = (if clen \<noteq> prev_len then push_bit (clen - prev_len) code else code);
          table = AList.update (format_0b code clen) smb table
      in table_loop rest (code + 1) clen table)"

definition build_table :: "byte list \<Rightarrow> byte list \<Rightarrow> (bitstr \<times> byte) list" where
  "build_table symbols lengths =
     table_loop (sort_key (\<lambda>x. (unat (snd x), fst x)) (zip symbols lengths)) 0 0 []"

text \<open>The payload loop: extend \<open>cur\<close> by one bit, emit on the first table match.\<close>

fun payload_loop ::
  "(bitstr \<times> byte) list \<Rightarrow> nat \<Rightarrow> bitstr \<Rightarrow> byte list \<Rightarrow> bitstr \<Rightarrow> byte list" where
  "payload_loop table orig_len [] out cur = out"
| "payload_loop table orig_len (b # rest) out cur =
     (let cur = cur @ [b]
      in case map_of table cur of
           Some s \<Rightarrow>
             (let out = out @ [s]
              in if length out = orig_len then out
                 else payload_loop table orig_len rest out [])
         | None \<Rightarrow> payload_loop table orig_len rest out cur)"

text \<open>\<open>f"{b:08b}"\<close> joined over a byte string.\<close>

definition bytes_bits :: "byte list \<Rightarrow> bitstr" where
  "bytes_bits bs = concat (map (\<lambda>b. format_0b (unat b) 8) bs)"

definition HuffmanCoder_decode :: "byte list \<Rightarrow> error + byte list" where
  "HuffmanCoder_decode blob =
     (if blob = [] then Inr []
      else if take 3 blob = RUN then
        (if length blob \<le> 3 then Inl IndexError
         else (let smb = blob ! 3;
                   n = from_bytes (slice blob 4 8)
               in Inr (replicate n smb)))
      else
        (let mv = blob;
             orig_len = from_bytes (slice mv 0 4)
         in if length mv \<le> 4 then Inl IndexError
            else
              (let leaf_cnt = unat (mv ! 4)
               in case read_pairs mv leaf_cnt 5 [] [] of
                    Inl e \<Rightarrow> Inl e
                  | Inr (symbols, lengths, i) \<Rightarrow>
                      (let canon_len_bits = from_bytes (slice mv i (i + 2));
                           i = i + 2;
                           canon_bytes = (canon_len_bits + 7) div 8;
                           canon_blob = slice mv i (i + canon_bytes);
                           i = i + canon_bytes;
                           canon_bits = take canon_len_bits (bytes_bits canon_blob);
                           table = build_table symbols lengths;
                           payload_len_bits = from_bytes (slice mv i (i + 4));
                           i = i + 4;
                           payload_bytes = (payload_len_bits + 7) div 8;
                           payload_bits =
                             take payload_len_bits (bytes_bits (slice mv i (i + payload_bytes)))
                       in Inr (payload_loop table orig_len payload_bits [] [])))))"

section \<open>Arithmetic coder (coders/arithmetic.py)\<close>

subsection \<open>Constants and bit buffers\<close>

definition TOP :: int where "TOP = push_bit 32 1"
definition HALF :: int where "HALF = push_bit 31 1"
definition QTR :: int where "QTR = push_bit 30 1"

text \<open>
  \<open>_BitOut\<close>: the list of bits written so far. \<open>put\<close> and \<open>extend\<close> mask the bit
  with \<open>& 1\<close>, so every element is 0 or 1 and \<open>finish\<close> appends bytes below 256.
\<close>

record BitOut =
  bits :: "int list"

definition BitOut_init :: BitOut where
  "BitOut_init = \<lparr>bits = []\<rparr>"

definition BitOut_put :: "BitOut \<Rightarrow> int \<Rightarrow> BitOut" where
  "BitOut_put bo b = bo\<lparr>bits := bits bo @ [b AND 1]\<rparr>"

definition BitOut_extend :: "BitOut \<Rightarrow> int \<Rightarrow> nat \<Rightarrow> BitOut" where
  "BitOut_extend bo b n = bo\<lparr>bits := bits bo @ replicate n (b AND 1)\<rparr>"

function finish_loop :: "int list \<Rightarrow> byte list" where
  "finish_loop bs =
     (if bs = [] then []
      else of_int (foldl (\<lambda>byte b. push_bit 1 byte OR b) 0 (take 8 bs)) # finish_loop (drop 8 bs))"
  by pat_completeness auto
termination
  by (relation "measure length") auto

declare finish_loop.simps [simp del]

definition BitOut_finish :: "BitOut \<Rightarrow> byte list" where
  "BitOut_finish bo =
     (let bs = bits bo @ replicate (nat ((- int (length (bits bo))) mod 8)) 0
      in finish_loop bs)"

text \<open>\<open>_BitIn\<close>: the bits of the buffer, most significant first in each byte, and a
  read cursor.\<close>

record BitIn =
  in_bits :: "int list"
  idx :: nat

definition BitIn_init :: "byte list \<Rightarrow> BitIn" where
  "BitIn_init blob =
     \<lparr>in_bits = concat (map (\<lambda>b. map (\<lambda>i. drop_bit i (uint b) AND 1) [7, 6, 5, 4, 3, 2, 1, 0]) blob),
      idx = 0\<rparr>"

definition BitIn_get :: "BitIn \<Rightarrow> int \<times> BitIn" where
  "BitIn_get bi =
     (if idx bi \<ge> length (in_bits bi) then (0, bi)
      else (in_bits bi ! idx bi, bi\<lparr>idx := idx bi + 1\<rparr>))"

subsection \<open>\<open>encode\<close>\<close>

text \<open>The closure \<open>emit\<close>, with the variables it changes passed in and returned.\<close>

definition emit :: "BitOut \<Rightarrow> nat \<Rightarrow> int \<Rightarrow> BitOut \<times> nat" where
  "emit bout pending b =
     (let bout = BitOut_put bout b
      in if pending \<noteq> 0 then (BitOut_extend bout (b XOR 1) pending, 0) else (bout, pending))"

text \<open>\<open>freq[s]\<close> on a \<open>Counter\<close>: 0 for a key that is absent.\<close>

definition Counter_get :: "(byte \<times> nat) list \<Rightarrow> byte \<Rightarrow> nat" where
  "Counter_get fr k = (case map_of fr k of Some c \<Rightarrow> c | None \<Rightarrow> 0)"

text \<open>The cumulative sums \<open>[0, f1, f1 + f2, ...]\<close> over the sorted symbols.\<close>

fun running_sums :: "(byte \<times> nat) list \<Rightarrow> byte list \<Rightarrow> nat \<Rightarrow> nat list \<Rightarrow> nat list" where
  "running_sums fr [] running cum = cum"
| "running_sums fr (s # symbols) running cum =
     (let running = running + Counter_get fr s
      in running_sums fr symbols running (cum @ [running]))"

subsection \<open>The normalisation loop of \<open>encode\<close>\<close>

lemma TOP_eq: "TOP = 4294967296" by (simp add: TOP_def)
lemma HALF_eq: "HALF = 2147483648" by (simp add: HALF_def)
lemma QTR_eq: "QTR = 1073741824" by (simp add: QTR_def)

lemma and_TOP_m1: "x AND (TOP - 1) = x mod 4294967296"
proof -
  have "TOP - 1 = mask 32" by (simp add: TOP_eq mask_eq_exp_minus_1)
  then show ?thesis by (simp add: take_bit_eq_mod flip: take_bit_eq_mask)
qed

lemma shift_low: "push_bit 1 x AND (TOP - 1) = (2 * x) mod 4294967296"
  by (simp add: and_TOP_m1 mult.commute)

lemma shift_high: "(push_bit 1 x OR 1) AND (TOP - 1) = (2 * x + 1) mod 4294967296"
proof -
  have "push_bit 1 x OR 1 = 2 * x + 1"
    by (simp add: or_one_eq mult.commute)
  then show ?thesis
    by (simp only: and_TOP_m1)
qed

lemma double_dvd: "(2147483648::int) dvd x \<Longrightarrow> (4294967296::int) dvd 2 * x"
  using mult_dvd_mono [of 2 2 2147483648 x] by simp

text \<open>
  The normalisation loops below stop after at most 33 rounds from any pair of bounds:
  each round doubles \<open>low\<close> and \<open>high + 1\<close> modulo \<open>2^31\<close>. The measure counts the
  powers of two up to \<open>2^31\<close> that do not yet divide them.
\<close>

definition undiv :: "int \<Rightarrow> nat set" where
  "undiv x = {k. k < 31 \<and> \<not> 2 ^ Suc k dvd x}"

lemma undiv_shift:
  assumes "(2::int) ^ 31 dvd (y - 2 * x)"
  shows "undiv y = Suc ` (undiv x \<inter> {..<30})"
proof -
  have iff: "(2::int) ^ Suc k dvd y \<longleftrightarrow> 2 ^ k dvd x" if "k < 31" for k
  proof -
    have "(2::int) ^ Suc k dvd 2 ^ 31"
      using that by (intro le_imp_power_dvd) simp
    then have d: "(2::int) ^ Suc k dvd (y - 2 * x)"
      using assms dvd_trans by blast
    have "(2::int) ^ Suc k dvd y \<longleftrightarrow> 2 ^ Suc k dvd 2 * x"
      using d by (metis dvd_diff dvd_add_right_iff diff_add_cancel add.commute)
    also have "\<dots> \<longleftrightarrow> 2 ^ k dvd x" by simp
    finally show ?thesis .
  qed
  show ?thesis
  proof (intro set_eqI iffI)
    fix k assume "k \<in> undiv y"
    then have k: "k < 31" "\<not> (2::int) ^ k dvd x"
      using iff by (auto simp: undiv_def)
    then obtain j where j: "k = Suc j"
      by (cases k) auto
    with k show "k \<in> Suc ` (undiv x \<inter> {..<30})"
      by (auto simp: undiv_def)
  next
    fix k assume "k \<in> Suc ` (undiv x \<inter> {..<30})"
    then obtain j where "k = Suc j" "j < 30" "\<not> (2::int) ^ Suc j dvd x"
      by (auto simp: undiv_def)
    then show "k \<in> undiv y"
      using iff [of k] by (simp add: undiv_def)
  qed
qed

lemma finite_undiv [simp]: "finite (undiv x)"
  by (simp add: undiv_def)

lemma undiv_card_le:
  assumes "(2::int) ^ 31 dvd (y - 2 * x)"
  shows "card (undiv y) \<le> card (undiv x)"
proof -
  have "card (undiv y) = card (undiv x \<inter> {..<30})"
    by (simp add: undiv_shift [OF assms] card_image)
  also have "\<dots> \<le> card (undiv x)"
    by (intro card_mono) auto
  finally show ?thesis .
qed

lemma undiv_card_less:
  assumes "(2::int) ^ 31 dvd (y - 2 * x)" and "\<not> (2::int) ^ 31 dvd x"
  shows "card (undiv y) < card (undiv x)"
proof -
  have "card (undiv y) = card (undiv x \<inter> {..<30})"
    by (simp add: undiv_shift [OF assms(1)] card_image)
  also have "\<dots> < card (undiv x)"
  proof (intro psubset_card_mono)
    have "30 \<in> undiv x" using assms(2) by (simp add: undiv_def)
    then show "undiv x \<inter> {..<30} \<subset> undiv x" by auto
  qed simp
  finally show ?thesis .
qed

lemma undiv_empty: "(2::int) ^ 31 dvd x \<Longrightarrow> undiv x = {}"
proof -
  assume a: "(2::int) ^ 31 dvd x"
  have "(2::int) ^ Suc k dvd x" if "k < 31" for k
  proof -
    have "(2::int) ^ Suc k dvd 2 ^ 31"
      using that by (intro le_imp_power_dvd) simp
    then show ?thesis using a dvd_trans by blast
  qed
  then show ?thesis by (auto simp: undiv_def)
qed


definition norm_measure :: "int \<Rightarrow> int \<Rightarrow> nat" where
  "norm_measure low high =
     card (undiv low) + card (undiv (high + 1)) + (if low = 0 \<and> high = 4294967295 then 0 else 1)"

lemma mod_minus_self_dvd: "(m::int) dvd (y mod m - y)"
  by (metis dvd_minus_mod dvd_diff_commute)

lemma norm_measure_step:
  fixes low high c :: int
  assumes c: "(2::int) ^ 31 dvd 2 * c"
    and c2: "(2::int) ^ 31 dvd low \<Longrightarrow> (2::int) ^ 32 dvd 2 * c"
    and ne: "\<not> (low = 0 \<and> high = 4294967295)"
  shows "norm_measure ((2 * (low - c)) mod 4294967296) ((2 * (high - c) + 1) mod 4294967296)
           < norm_measure low high"
proof -
  define low' where "low' = (2 * (low - c)) mod 4294967296"
  define high' where "high' = (2 * (high - c) + 1) mod 4294967296"
  have p: "(2::int) ^ 31 dvd 4294967296" by simp
  have "(4294967296::int) dvd (low' - 2 * (low - c))"
    unfolding low'_def by (rule mod_minus_self_dvd)
  then have "(2::int) ^ 31 dvd (low' - 2 * (low - c))"
    using p dvd_trans by blast
  then have "(2::int) ^ 31 dvd (low' - 2 * (low - c) - 2 * c)"
    using c by (rule dvd_diff)
  then have d1: "(2::int) ^ 31 dvd (low' - 2 * low)"
    by (simp add: algebra_simps)
  have "(4294967296::int) dvd (high' - (2 * (high - c) + 1))"
    unfolding high'_def by (rule mod_minus_self_dvd)
  then have "(2::int) ^ 31 dvd (high' - (2 * (high - c) + 1))"
    using p dvd_trans by blast
  then have "(2::int) ^ 31 dvd (high' - (2 * (high - c) + 1) - 2 * c)"
    using c by (rule dvd_diff)
  then have d2: "(2::int) ^ 31 dvd (high' + 1 - 2 * (high + 1))"
    by (simp add: algebra_simps)
  show ?thesis
  proof (cases "(2::int) ^ 31 dvd low \<and> (2::int) ^ 31 dvd (high + 1)")
    case True
    then have c32: "(4294967296::int) dvd 2 * c"
      using c2 by simp
    have "(4294967296::int) dvd 2 * low"
      using True by (simp add: double_dvd)
    then have "(4294967296::int) dvd 2 * low - 2 * c"
      using c32 by (rule dvd_diff)
    then have l0: "low' = 0"
      by (simp add: low'_def algebra_simps)
    have "(2147483648::int) dvd high + 1"
      using True by simp
    then have "(4294967296::int) dvd 2 * (high + 1)"
      by (rule double_dvd)
    then have "(4294967296::int) dvd 2 * (high + 1) - 2 * c"
      using c32 by (rule dvd_diff)
    then obtain q where q: "2 * (high + 1) - 2 * c = 4294967296 * q"
      by (auto simp: dvd_def)
    have "2 * (high - c) + 1 = 4294967295 + 4294967296 * (q - 1)"
      using q by (simp add: algebra_simps)
    then have "high' = (4294967295 + 4294967296 * (q - 1)) mod 4294967296"
      by (simp only: high'_def)
    also have "\<dots> = 4294967295 mod 4294967296"
      by (rule mod_mult_self2)
    finally have h0: "high' = 4294967295"
      by simp
    have "norm_measure low' high' = 0"
      by (simp add: norm_measure_def l0 h0 undiv_empty)
    moreover have "norm_measure low high \<ge> 1"
      using ne by (auto simp: norm_measure_def)
    ultimately show ?thesis
      by (simp add: low'_def high'_def)
  next
    case False
    have le1: "card (undiv low') \<le> card (undiv low)"
      by (rule undiv_card_le [OF d1])
    have le2: "card (undiv (high' + 1)) \<le> card (undiv (high + 1))"
      by (rule undiv_card_le [OF d2])
    have "card (undiv low') < card (undiv low) \<or> card (undiv (high' + 1)) < card (undiv (high + 1))"
      using False undiv_card_less [OF d1] undiv_card_less [OF d2] by blast
    then have "norm_measure low' high' < norm_measure low high"
      using le1 le2 ne by (auto simp: norm_measure_def)
    then show ?thesis
      by (simp add: low'_def high'_def)
  qed
qed

lemma norm_a:
  assumes "high < HALF"
  shows "norm_measure (push_bit 1 low AND (TOP - 1)) ((push_bit 1 high OR 1) AND (TOP - 1))
           < norm_measure low high"
proof -
  have "\<not> (low = 0 \<and> high = 4294967295)"
    using assms by (simp add: HALF_eq)
  then show ?thesis
    unfolding shift_low shift_high
    using norm_measure_step [of 0 low high] by simp
qed

lemma norm_b:
  assumes "\<not> high < HALF" "low \<ge> HALF"
  shows "norm_measure (push_bit 1 (low - HALF) AND (TOP - 1)) ((push_bit 1 (high - HALF) OR 1) AND (TOP - 1))
           < norm_measure low high"
proof -
  have "\<not> (low = 0 \<and> high = 4294967295)"
    using assms by (simp add: HALF_eq)
  then show ?thesis
    unfolding shift_low shift_high
    by (intro norm_measure_step) (simp_all add: HALF_eq)
qed

lemma norm_c:
  assumes "\<not> low \<ge> HALF" "low \<ge> QTR" "high < 3 * QTR"
  shows "norm_measure (push_bit 1 (low - QTR) AND (TOP - 1)) ((push_bit 1 (high - QTR) OR 1) AND (TOP - 1))
           < norm_measure low high"
proof -
  have ne: "\<not> (low = 0 \<and> high = 4294967295)"
    using assms by (simp add: QTR_eq)
  have "\<not> (2::int) ^ 31 dvd low"
  proof
    assume "(2::int) ^ 31 dvd low"
    moreover have "0 < low" using assms by (simp add: QTR_eq)
    ultimately have "(2::int) ^ 31 \<le> low" by (rule zdvd_imp_le)
    then show False using assms by (simp add: HALF_eq)
  qed
  then show ?thesis
    unfolding shift_low shift_high
    using ne by (intro norm_measure_step) (simp_all add: QTR_eq)
qed

text \<open>The \<open>while True\<close> loop of \<open>encode\<close>.\<close>

function encode_normalize :: "int \<Rightarrow> int \<Rightarrow> nat \<Rightarrow> BitOut \<Rightarrow> int \<times> int \<times> nat \<times> BitOut" where
  "encode_normalize low high pending bout =
     (if high < HALF then
        (let (bout, pending) = emit bout pending 0
         in encode_normalize (push_bit 1 low AND (TOP - 1))
              ((push_bit 1 high OR 1) AND (TOP - 1)) pending bout)
      else if low \<ge> HALF then
        (let low = low - HALF;
             high = high - HALF;
             (bout, pending) = emit bout pending 1
         in encode_normalize (push_bit 1 low AND (TOP - 1))
              ((push_bit 1 high OR 1) AND (TOP - 1)) pending bout)
      else if low \<ge> QTR \<and> high < 3 * QTR then
        (let low = low - QTR;
             high = high - QTR;
             pending = pending + 1
         in encode_normalize (push_bit 1 low AND (TOP - 1))
              ((push_bit 1 high OR 1) AND (TOP - 1)) pending bout)
      else (low, high, pending, bout))"
  by pat_completeness auto
termination
proof (relation "measure (\<lambda>(low, high, pending, bout). norm_measure low high)", goal_cases)
  case 1
  show ?case by simp
next
  case 2
  then show ?case using norm_a by simp
next
  case 3
  then show ?case using norm_b by simp
next
  case 4
  then show ?case using norm_c by simp
qed

declare encode_normalize.simps [simp del]

text \<open>
  The two narrowing statements, the same in \<open>encode\<close> and \<open>decode\<close>:
  \<open>low += r*cum[b] // total; high = low + r*freq[b] // total - 1\<close>, with the values
  \<open>c\<close> of \<open>cum[b]\<close> and \<open>f\<close> of \<open>freq[b]\<close>.
\<close>

definition narrow :: "int \<Rightarrow> int \<Rightarrow> nat \<Rightarrow> nat \<Rightarrow> nat \<Rightarrow> int \<times> int" where
  "narrow low high c f tot =
     (let r = high - low + 1;
          low = low + r * int c div int tot;
          high = low + r * int f div int tot - 1
      in (low, high))"

text \<open>The \<open>for b in data\<close> loop: narrow the interval, then normalise.\<close>

fun encode_loop ::
  "(byte \<times> nat) list \<Rightarrow> (byte \<times> nat) list \<Rightarrow> nat \<Rightarrow> byte list \<Rightarrow>
     int \<Rightarrow> int \<Rightarrow> nat \<Rightarrow> BitOut \<Rightarrow> int \<times> int \<times> nat \<times> BitOut" where
  "encode_loop cum fr tot [] low high pending bout = (low, high, pending, bout)"
| "encode_loop cum fr tot (b # data) low high pending bout =
     (let (low, high) = narrow low high (dict_get cum b) (Counter_get fr b) tot;
          (low, high, pending, bout) = encode_normalize low high pending bout
      in encode_loop cum fr tot data low high pending bout)"

text \<open>The final bit: \<open>pending += 1; emit(0 if low < _QTR else 1)\<close>.\<close>

definition final_emit :: "int \<Rightarrow> nat \<Rightarrow> BitOut \<Rightarrow> BitOut \<times> nat" where
  "final_emit low pending bout =
     (let pending = pending + 1
      in emit bout pending (if low < QTR then 0 else 1))"

text \<open>The header loop \<open>for s in symbols\<close>: the symbol and its 4-byte frequency.\<close>

fun write_table :: "byte list \<Rightarrow> (byte \<times> nat) list \<Rightarrow> error + byte list" where
  "write_table [] fr = Inr []"
| "write_table (s # ss) fr =
     (case to_bytes (Counter_get fr s) 4 of
        Inl e \<Rightarrow> Inl e
      | Inr f4 \<Rightarrow>
          (case write_table ss fr of
             Inl e \<Rightarrow> Inl e
           | Inr bs \<Rightarrow> Inr ([s] @ f4 @ bs)))"

definition ArithmeticCoder_encode :: "byte list \<Rightarrow> error + byte list" where
  "ArithmeticCoder_encode data =
     (if data = [] then Inr []
      else
        (let fr = Counter data
         in if length fr = 1 then
              (let smb = fst (hd fr)
               in case to_bytes (length data) 4 of
                    Inl e \<Rightarrow> Inl e
                  | Inr n4 \<Rightarrow> Inr (RUN @ [smb] @ n4))
            else
              (let symbols = sort (map fst fr);
                   cum = running_sums fr symbols 0 [0];
                   tot = last cum;
                   cum = dict_update [] (zip symbols cum);
                   (low, high, pending, bout) =
                      encode_loop cum fr tot data 0 (TOP - 1) 0 BitOut_init;
                   (bout, pending) = final_emit low pending bout;
                   code_bits = BitOut_finish bout
               in case to_bytes (length data) 4 of
                    Inl e \<Rightarrow> Inl e
                  | Inr b_size \<Rightarrow>
                 (case bytes1 (length symbols) of
                    Inl e \<Rightarrow> Inl e
                  | Inr b_count \<Rightarrow>
                 (case write_table symbols fr of
                    Inl e \<Rightarrow> Inl e
                  | Inr b_table \<Rightarrow> Inr (b_size @ b_count @ b_table @ code_bits))))))"

subsection \<open>\<open>decode\<close>\<close>

text \<open>The header loop: \<open>sc\<close> entries of a symbol and a 4-byte frequency. \<open>mv[i]\<close>
  raises IndexError past the end; the slice does not.\<close>

fun read_table ::
  "byte list \<Rightarrow> nat \<Rightarrow> nat \<Rightarrow> byte list \<Rightarrow> (byte \<times> nat) list \<Rightarrow> nat \<Rightarrow>
     error + (byte list \<times> (byte \<times> nat) list \<times> nat \<times> nat)" where
  "read_table mv 0 i symbols fr tot = Inr (symbols, fr, tot, i)"
| "read_table mv (Suc k) i symbols fr tot =
     (if i < length mv then
        (let s = mv ! i;
             i = i + 1;
             f = from_bytes (slice mv i (i + 4));
             i = i + 4
         in read_table mv k i (symbols @ [s]) (AList.update s f fr) (tot + f))
      else Inl IndexError)"

text \<open>\<open>for s in sorted(symbols): cum[s] = run; run += freq[s]\<close>.\<close>

fun cum_loop ::
  "(byte \<times> nat) list \<Rightarrow> byte list \<Rightarrow> nat \<Rightarrow> (byte \<times> nat) list \<Rightarrow> (byte \<times> nat) list" where
  "cum_loop fr [] run cum = cum"
| "cum_loop fr (s # ss) run cum = cum_loop fr ss (run + dict_get fr s) (AList.update s run cum)"

text \<open>\<open>for _ in range(32): code = (code << 1) | bitin.get()\<close>.\<close>

fun read_code :: "nat \<Rightarrow> int \<Rightarrow> BitIn \<Rightarrow> int \<times> BitIn" where
  "read_code 0 code bitin = (code, bitin)"
| "read_code (Suc k) code bitin =
     (let (b, bitin) = BitIn_get bitin
      in read_code k (push_bit 1 code OR b) bitin)"

text \<open>
  The scan \<open>for s in symbols: if cum[s]+freq[s] > scaled >= cum[s]: break\<close>. The last
  argument is the value of \<open>s\<close> so far, \<open>None\<close> while it is unbound; after the scan
  \<open>s\<close> is the first match, or the last symbol when nothing matches.
\<close>

fun find_symbol ::
  "(byte \<times> nat) list \<Rightarrow> (byte \<times> nat) list \<Rightarrow> int \<Rightarrow> byte list \<Rightarrow> byte option \<Rightarrow> byte option" where
  "find_symbol cum fr scaled [] s = s"
| "find_symbol cum fr scaled (x # xs) s =
     (if int (dict_get cum x + dict_get fr x) > scaled \<and> scaled \<ge> int (dict_get cum x)
      then Some x
      else find_symbol cum fr scaled xs (Some x))"

text \<open>The \<open>while True\<close> loop of \<open>decode\<close>.\<close>

function decode_normalize :: "int \<Rightarrow> int \<Rightarrow> int \<Rightarrow> BitIn \<Rightarrow> int \<times> int \<times> int \<times> BitIn" where
  "decode_normalize low high code bitin =
     (if high < HALF then
        (let (b, bitin) = BitIn_get bitin
         in decode_normalize (push_bit 1 low AND (TOP - 1))
              ((push_bit 1 high OR 1) AND (TOP - 1))
              ((push_bit 1 code OR b) AND (TOP - 1)) bitin)
      else if low \<ge> HALF then
        (let low = low - HALF;
             high = high - HALF;
             code = code - HALF;
             (b, bitin) = BitIn_get bitin
         in decode_normalize (push_bit 1 low AND (TOP - 1))
              ((push_bit 1 high OR 1) AND (TOP - 1))
              ((push_bit 1 code OR b) AND (TOP - 1)) bitin)
      else if low \<ge> QTR \<and> high < 3 * QTR then
        (let low = low - QTR;
             high = high - QTR;
             code = code - QTR;
             (b, bitin) = BitIn_get bitin
         in decode_normalize (push_bit 1 low AND (TOP - 1))
              ((push_bit 1 high OR 1) AND (TOP - 1))
              ((push_bit 1 code OR b) AND (TOP - 1)) bitin)
      else (low, high, code, bitin))"
  by pat_completeness auto
termination
proof (relation "measure (\<lambda>(low, high, code, bitin). norm_measure low high)", goal_cases)
  case 1
  show ?case by simp
next
  case 2
  then show ?case using norm_a by simp
next
  case 3
  then show ?case using norm_b by simp
next
  case 4
  then show ?case using norm_c by simp
qed

declare decode_normalize.simps [simp del]

text \<open>
  The loop \<open>while len(out) < n\<close>. The divisions raise ZeroDivisionError on a zero
  divisor, and \<open>out.append(s)\<close> raises UnboundLocalError when the header listed no
  symbol.
\<close>

function decode_loop ::
  "nat \<Rightarrow> byte list \<Rightarrow> (byte \<times> nat) list \<Rightarrow> (byte \<times> nat) list \<Rightarrow> nat \<Rightarrow>
     int \<Rightarrow> int \<Rightarrow> int \<Rightarrow> BitIn \<Rightarrow> byte list \<Rightarrow> error + byte list" where
  "decode_loop n symbols cum fr tot low high code bitin out =
     (if length out < n then
        (let r = high - low + 1
         in if r = 0 then Inl ZeroDivisionError
            else
              (let scaled = ((code - low + 1) * int tot - 1) div r
               in case find_symbol cum fr scaled symbols None of
                    None \<Rightarrow> Inl UnboundLocalError
                  | Some s \<Rightarrow>
                      (let out = out @ [s]
                       in if tot = 0 then Inl ZeroDivisionError
                          else
                            (let (low, high) = narrow low high (dict_get cum s) (dict_get fr s) tot;
                                 (low, high, code, bitin) = decode_normalize low high code bitin
                             in decode_loop n symbols cum fr tot low high code bitin out))))
      else Inr out)"
  by pat_completeness auto
termination
  by (relation "measure (\<lambda>(n, symbols, cum, fr, tot, low, high, code, bitin, out). n - length out)")
     auto

declare decode_loop.simps [simp del]

definition ArithmeticCoder_decode :: "byte list \<Rightarrow> error + byte list" where
  "ArithmeticCoder_decode blob =
     (if blob = [] then Inr []
      else if take 3 blob = RUN then
        (if length blob \<le> 3 then Inl IndexError
         else (let smb = blob ! 3;
                   n = from_bytes (slice blob 4 8)
               in Inr (replicate n smb)))
      else
        (let mv = blob;
             n = from_bytes (slice mv 0 4)
         in if length mv \<le> 4 then Inl IndexError
            else
              (let sc = unat (mv ! 4)
               in case read_table mv sc 5 [] [] 0 of
                    Inl e \<Rightarrow> Inl e
                  | Inr (symbols, fr, tot, i) \<Rightarrow>
                      (let cum = cum_loop fr (sort symbols) 0 [];
                           bitin = BitIn_init (drop i mv);
                           (code, bitin) = read_code 32 0 bitin
                       in decode_loop n symbols cum fr tot 0 (TOP - 1) code bitin []))))"

section \<open>Observation functions used in the statements\<close>

text \<open>The bits returned by \<open>k\<close> successive calls of \<open>get\<close>.\<close>

fun get_many :: "nat \<Rightarrow> BitIn \<Rightarrow> int list" where
  "get_many 0 bi = []"
| "get_many (Suc k) bi = (let (b, bi) = BitIn_get bi in b # get_many k bi)"

text \<open>The eight bits of a byte as \<open>_BitIn\<close> lists them.\<close>

definition byte_bits :: "byte \<Rightarrow> int list" where
  "byte_bits b = map (\<lambda>i. drop_bit i (uint b) AND 1) [7, 6, 5, 4, 3, 2, 1, 0]"

text \<open>The symbols at the leaves of a tree, left to right, and each with its path from
  the root (\<open>False\<close> for a left branch, \<open>True\<close> for a right branch).\<close>

fun leaves :: "Node \<Rightarrow> byte list" where
  "leaves (Leaf f s) = [s]"
| "leaves (Branch f l r) = leaves l @ leaves r"

fun paths :: "Node \<Rightarrow> (byte \<times> bitstr) list" where
  "paths (Leaf f s) = [(s, [])]"
| "paths (Branch f l r) =
     map (\<lambda>(s, c). (s, False # c)) (paths l) @ map (\<lambda>(s, c). (s, True # c)) (paths r)"

text \<open>The symbols held by the trees of a heap.\<close>

definition heap_syms :: "Node list \<Rightarrow> byte multiset" where
  "heap_syms heap = (\<Sum>t\<in>#mset heap. mset (leaves t))"

text \<open>
  The first two nodes that the loop of \<open>_build_tree\<close> extracts for an input, and the
  heap that is left.
\<close>

definition first_merge :: "byte list \<Rightarrow> Node \<times> Node \<times> Node list" where
  "first_merge data =
     (let heap = map (\<lambda>(s, f). Leaf f s) (Counter data);
          (x, heap) = heappop heap;
          heap = heappush heap x;
          (n1, heap) = heappop heap;
          (n2, heap) = heappop heap
      in (n1, n2, heap))"

text \<open>
  The narrowing step in the words of the specification: with \<open>r = high - low + 1\<close>,
  \<open>low\<close> becomes \<open>low + floor(r * cum[b] / total)\<close> and \<open>high\<close> becomes the new
  \<open>low\<close> plus \<open>floor(r * freq[b] / total) - 1\<close>, the quotients taken over the reals.
\<close>

definition narrow_spec :: "int \<Rightarrow> int \<Rightarrow> nat \<Rightarrow> nat \<Rightarrow> nat \<Rightarrow> int \<times> int" where
  "narrow_spec low high c f tot =
     (let r = high - low + 1;
          low' = low + \<lfloor>real_of_int r * real c / real tot\<rfloor>;
          high' = low' + \<lfloor>real_of_int r * real f / real tot\<rfloor> - 1
      in (low', high'))"


text \<open>
  The code values that the canonicalisation loop assigns to a list of (symbol, length)
  pairs: each entry is the symbol, its code value and its length.
\<close>

fun cvals :: "('a \<times> nat) list \<Rightarrow> nat \<Rightarrow> nat \<Rightarrow> ('a \<times> nat \<times> nat) list" where
  "cvals [] code prev_len = []"
| "cvals ((s, l) # ps) code prev_len =
     (let code = push_bit (l - prev_len) code
      in (s, code, l) # cvals ps (code + 1) l)"

text \<open>The Kraft sum of a list of (symbol, length) pairs.\<close>

definition kraft :: "('a \<times> nat) list \<Rightarrow> real" where
  "kraft ps = (\<Sum>p\<leftarrow>ps. (1 / 2) ^ snd p)"


text \<open>The symbols of a tree with the lengths of their paths.\<close>

definition depths :: "Node \<Rightarrow> (byte \<times> nat) list" where
  "depths t = map (\<lambda>(s, b). (s, length b)) (paths t)"




text \<open>
  The table that \<open>decode\<close> holds when it has run up to its table loop: the two
  tests at its head first (an empty blob and a blob that starts with \<open>RUN\<close> return
  before any table is built, hence \<open>None\<close>; \<open>blob[3]\<close> raises on the bare tag),
  then the leaf count at index 4 and the pairs; nothing after the pairs is read.
\<close>

definition decode_table :: "byte list \<Rightarrow> error + (bitstr \<times> byte) list option" where
  "decode_table blob =
     (if blob = [] then Inr None
      else if take 3 blob = RUN then
        (if length blob \<le> 3 then Inl IndexError else Inr None)
      else if length blob \<le> 4 then Inl IndexError
      else
        (case read_pairs blob (unat (blob ! 4)) 5 [] [] of
           Inl e \<Rightarrow> Inl e
         | Inr (symbols, lengths, i) \<Rightarrow> Inr (Some (build_table symbols lengths))))"

text \<open>
  The cumulative table in the words of the specification: a symbol is mapped to the
  sum of the counts of all symbols strictly below it, in ascending symbol order.
\<close>

definition cum_spec :: "byte list \<Rightarrow> byte \<Rightarrow> nat" where
  "cum_spec data b = (\<Sum>s\<leftarrow>filter (\<lambda>s. s < b) (sort (remdups data)). count_list data s)"

text \<open>
  One round of the encoder in the words of the specification, for the input \<open>data\<close>:
  the byte \<open>b\<close> narrows the interval with \<open>cum[b]\<close>, \<open>freq[b]\<close> (the number of
  occurrences of \<open>b\<close>) and \<open>total\<close> (the length of the input), and the interval is
  then normalised.
\<close>

definition spec_step ::
  "byte list \<Rightarrow> int \<times> int \<times> nat \<times> BitOut \<Rightarrow> byte \<Rightarrow> int \<times> int \<times> nat \<times> BitOut" where
  "spec_step data st b =
     (let (low, high, pending, bout) = st;
          (low, high) = narrow_spec low high (cum_spec data b) (count_list data b) (length data)
      in encode_normalize low high pending bout)"

text \<open>
  The bits written when the last symbol has been encoded, in the words of the
  specification: \<open>pending\<close> is incremented once more and a final bit is emitted, 0 if
  \<open>low < 2^30\<close> and 1 otherwise, followed by the pending bits as its complement.
\<close>

definition spec_final_bits :: "int \<times> int \<times> nat \<times> BitOut \<Rightarrow> int list" where
  "spec_final_bits st =
     (let (low, high, pending, bout) = st;
          fb = (if low < 2 ^ 30 then 0 else 1)
      in bits bout @ [fb] @ replicate (pending + 1) (1 - fb))"

text \<open>A list of symbols, each with the sum of \<open>F\<close> over the symbols before it.\<close>

fun cumpairs :: "(byte \<Rightarrow> nat) \<Rightarrow> nat \<Rightarrow> byte list \<Rightarrow> (byte \<times> nat) list" where
  "cumpairs F run [] = []"
| "cumpairs F run (s # ss) = (s, run) # cumpairs F (run + F s) ss"


text \<open>
  The values of \<open>(low, high)\<close> in one run of the normalisation loop \<open>while True\<close>
  entered with the given bounds: the value at each test of the loop, the last of them
  the value at \<open>break\<close>. The loop tests and updates the bounds in the same way in
  \<open>encode\<close> and in \<open>decode\<close>; the bits written or read do not enter them.
\<close>

function normalize_trace :: "int \<Rightarrow> int \<Rightarrow> (int \<times> int) list" where
  "normalize_trace low high =
     (low, high) #
     (if high < HALF then
        normalize_trace (push_bit 1 low AND (TOP - 1)) ((push_bit 1 high OR 1) AND (TOP - 1))
      else if low \<ge> HALF then
        normalize_trace (push_bit 1 (low - HALF) AND (TOP - 1))
          ((push_bit 1 (high - HALF) OR 1) AND (TOP - 1))
      else if low \<ge> QTR \<and> high < 3 * QTR then
        normalize_trace (push_bit 1 (low - QTR) AND (TOP - 1))
          ((push_bit 1 (high - QTR) OR 1) AND (TOP - 1))
      else [])"
  by pat_completeness auto
termination
proof (relation "measure (\<lambda>(low, high). norm_measure low high)", goal_cases)
  case 1
  show ?case by simp
next
  case 2
  then show ?case using norm_a by simp
next
  case 3
  then show ?case using norm_b by simp
next
  case 4
  then show ?case using norm_c by simp
qed

declare normalize_trace.simps [simp del]







section \<open>Verification: integer fields and the RUN record\<close>

lemma Counter_add_replicate:
  "foldl Counter_add [(s, c)] (replicate n s) = [(s, c + n)]"
  by (induction n arbitrary: c) simp_all

lemma Counter_replicate: "0 < n \<Longrightarrow> Counter (replicate n s) = [(s, n)]"
  by (cases n) (simp_all add: Counter_def Counter_add_replicate)

lemma big_endian_4:
  "big_endian n 4 = [of_nat (n div 16777216), of_nat (n div 65536), of_nat (n div 256), of_nat n]"
proof -
  have "(4::nat) = Suc (Suc (Suc (Suc 0)))" by simp
  then have "big_endian n 4 = big_endian n (Suc (Suc (Suc (Suc 0))))" by (simp only:)
  also have "\<dots> = [of_nat (n div 256 div 256 div 256), of_nat (n div 256 div 256), of_nat (n div 256), of_nat n]"
    by (simp only: big_endian.simps append.simps)
  finally show ?thesis by (simp add: div_mult2_eq [symmetric])
qed

lemma big_endian_2:
  "big_endian n 2 = [of_nat (n div 256), of_nat n]"
proof -
  have "(2::nat) = Suc (Suc 0)" by simp
  then have "big_endian n 2 = big_endian n (Suc (Suc 0))" by (simp only:)
  then show ?thesis by simp
qed

lemma to_bytes_4:
  "n < 4294967296 \<Longrightarrow>
   to_bytes n 4 = Inr [of_nat (n div 16777216), of_nat (n div 65536), of_nat (n div 256), of_nat n]"
  by (simp add: to_bytes_def big_endian_4)

lemma to_bytes_overflow: "256 ^ k \<le> n \<Longrightarrow> to_bytes n k = Inl OverflowError"
  by (simp add: to_bytes_def)

lemma from_bytes_snoc: "from_bytes (bs @ [b]) = from_bytes bs * 256 + unat b"
  by (simp add: from_bytes_def)

lemma from_bytes_big_endian: "from_bytes (big_endian n k) = n mod 256 ^ k"
proof (induction k arbitrary: n)
  case 0
  show ?case by (simp add: from_bytes_def)
next
  case (Suc k)
  have "from_bytes (big_endian n (Suc k)) = (n div 256) mod 256 ^ k * 256 + n mod 256"
    by (simp add: from_bytes_snoc Suc.IH unat_of_nat)
  also have "\<dots> = n mod 256 ^ Suc k"
    by (simp add: mod_mult2_eq)
  finally show ?case .
qed

lemma length_big_endian [simp]: "length (big_endian n k) = k"
  by (induction k arbitrary: n) simp_all

lemma from_bytes_to_bytes: "to_bytes n k = Inr bs \<Longrightarrow> from_bytes bs = n"
  by (auto simp: to_bytes_def from_bytes_big_endian split: if_splits)

lemma length_to_bytes: "to_bytes n k = Inr bs \<Longrightarrow> length bs = k"
  by (auto simp: to_bytes_def split: if_splits)

lemma run_encode_huffman:
  assumes "0 < n" "n < 4294967296"
  shows "HuffmanCoder_encode (replicate n s) =
     Inr [82, 85, 78, s, of_nat (n div 16777216), of_nat (n div 65536), of_nat (n div 256), of_nat n]"
  using assms by (simp add: HuffmanCoder_encode_def Counter_replicate to_bytes_4 RUN_def)

lemma run_encode_arith:
  assumes "0 < n" "n < 4294967296"
  shows "ArithmeticCoder_encode (replicate n s) =
     Inr [82, 85, 78, s, of_nat (n div 16777216), of_nat (n div 65536), of_nat (n div 256), of_nat n]"
  using assms by (simp add: ArithmeticCoder_encode_def Counter_replicate to_bytes_4 RUN_def)

lemma run_decode_huffman:
  assumes "n < 4294967296"
  shows "HuffmanCoder_decode
     [82, 85, 78, s, of_nat (n div 16777216), of_nat (n div 65536), of_nat (n div 256), of_nat n]
       = Inr (replicate n s)"
proof -
  have "from_bytes (big_endian n 4) = n"
    using assms by (simp add: from_bytes_big_endian)
  then show ?thesis
    by (simp add: HuffmanCoder_decode_def RUN_def slice_def big_endian_4)
qed

lemma run_decode_arith:
  assumes "n < 4294967296"
  shows "ArithmeticCoder_decode
     [82, 85, 78, s, of_nat (n div 16777216), of_nat (n div 65536), of_nat (n div 256), of_nat n]
       = Inr (replicate n s)"
proof -
  have "from_bytes (big_endian n 4) = n"
    using assms by (simp add: from_bytes_big_endian)
  then show ?thesis
    by (simp add: ArithmeticCoder_decode_def RUN_def slice_def big_endian_4)
qed

text \<open>
  C9. For both coders, \<open>encode\<close> of the empty byte sequence is the empty byte sequence
  and \<open>decode\<close> of the empty byte sequence is the empty byte sequence; neither raises.
\<close>

theorem empty_input:
  "HuffmanCoder_encode [] = Inr [] \<and> HuffmanCoder_decode [] = Inr [] \<and>
   ArithmeticCoder_encode [] = Inr [] \<and> ArithmeticCoder_decode [] = Inr []"
  by (simp add: HuffmanCoder_encode_def HuffmanCoder_decode_def
      ArithmeticCoder_encode_def ArithmeticCoder_decode_def)

lemma run_overflow_huffman:
  assumes "4294967296 \<le> n"
  shows "HuffmanCoder_encode (replicate n s) = Inl OverflowError"
proof -
  have "0 < n" using assms by simp
  then show ?thesis
    using assms
    by (simp add: HuffmanCoder_encode_def Counter_replicate to_bytes_overflow)
qed

lemma run_overflow_arith:
  assumes "4294967296 \<le> n"
  shows "ArithmeticCoder_encode (replicate n s) = Inl OverflowError"
proof -
  have "0 < n" using assms by simp
  then show ?thesis
    using assms
    by (simp add: ArithmeticCoder_encode_def Counter_replicate to_bytes_overflow)
qed

text \<open>
  C7, as the code has it, for \<open>n > 0\<close> copies of a byte \<open>s\<close>. When \<open>n < 2^32\<close>, both
  coders return the 8-byte record made of the tag \<open>RUN\<close>, the byte \<open>s\<close> and \<open>n\<close> as a
  4-byte big-endian integer, and both decoders map that record back to the \<open>n\<close>
  copies of \<open>s\<close>. When \<open>n \<ge> 2^32\<close>, the 4-byte count field cannot hold \<open>n\<close>: both
  coders raise OverflowError and return no record.
\<close>

theorem run_record:
  assumes "0 < n"
  shows "if n < 4294967296 then
           HuffmanCoder_encode (replicate n s) =
             Inr [82, 85, 78, s, of_nat (n div 16777216), of_nat (n div 65536), of_nat (n div 256), of_nat n]
         \<and> ArithmeticCoder_encode (replicate n s) =
             Inr [82, 85, 78, s, of_nat (n div 16777216), of_nat (n div 65536), of_nat (n div 256), of_nat n]
         \<and> HuffmanCoder_decode
             [82, 85, 78, s, of_nat (n div 16777216), of_nat (n div 65536), of_nat (n div 256), of_nat n]
               = Inr (replicate n s)
         \<and> ArithmeticCoder_decode
             [82, 85, 78, s, of_nat (n div 16777216), of_nat (n div 65536), of_nat (n div 256), of_nat n]
               = Inr (replicate n s)
         else
           HuffmanCoder_encode (replicate n s) = Inl OverflowError
         \<and> ArithmeticCoder_encode (replicate n s) = Inl OverflowError"
proof (cases "n < 4294967296")
  case True
  then show ?thesis
    using assms run_encode_huffman run_encode_arith run_decode_huffman run_decode_arith
    by simp
next
  case False
  then have "4294967296 \<le> n" by simp
  then show ?thesis
    using False run_overflow_huffman run_overflow_arith by simp
qed

text \<open>
  The instance of the specification, 1000 copies of the byte 7, and an instance past
  the bound, 5000000000 copies.
\<close>

theorem run_record_witness:
  "HuffmanCoder_encode (replicate 1000 7) = Inr [82, 85, 78, 7, 0, 0, 3, 232]
   \<and> ArithmeticCoder_encode (replicate 1000 7) = Inr [82, 85, 78, 7, 0, 0, 3, 232]
   \<and> HuffmanCoder_decode [82, 85, 78, 7, 0, 0, 3, 232] = Inr (replicate 1000 7)
   \<and> ArithmeticCoder_decode [82, 85, 78, 7, 0, 0, 3, 232] = Inr (replicate 1000 7)
   \<and> HuffmanCoder_encode (replicate 5000000000 7) = Inl OverflowError
   \<and> ArithmeticCoder_encode (replicate 5000000000 7) = Inl OverflowError"
proof -
  have low_byte: "(1000 :: byte) = 232" by simp
  show ?thesis
    using run_record [of 1000 7] run_record [of 5000000000 7] by (simp add: low_byte)
qed

text \<open>
  C7 as stated fails for \<open>2^32\<close> copies: \<open>len(data).to_bytes(4, "big")\<close> raises
  OverflowError in both coders, and no record is returned.
\<close>

theorem run_record_counterexample:
  "HuffmanCoder_encode (replicate 4294967296 7) = Inl OverflowError
   \<and> ArithmeticCoder_encode (replicate 4294967296 7) = Inl OverflowError"
  by (simp add: HuffmanCoder_encode_def ArithmeticCoder_encode_def Counter_replicate
      to_bytes_overflow)

section \<open>Verification: the bit source\<close>

lemma get_many_nth:
  "get_many k bi =
     map (\<lambda>j. if idx bi + j < length (in_bits bi) then in_bits bi ! (idx bi + j) else 0) [0..<k]"
proof (induction k arbitrary: bi)
  case 0
  show ?case by simp
next
  case (Suc k)
  have up: "[0..<Suc k] = 0 # map Suc [0..<k]"
    by (simp add: upt_conv_Cons map_Suc_upt del: upt_Suc)
  show ?case
    by (simp only: up) (simp add: BitIn_get_def Suc.IH del: upt_Suc)
qed

lemma bit_value: "drop_bit i (uint (b::byte)) AND 1 = (if bit b i then 1 else 0)"
  by (auto simp: and_one_eq bit_iff_odd_drop_bit [symmetric] bit_uint_iff mod_2_eq_odd
        dest: bit_imp_le_length)

lemma byte_bits_nth:
  assumes "j < 8"
  shows "byte_bits b ! j = (if bit b (7 - j) then 1 else 0)"
proof -
  have "j = 0 \<or> j = 1 \<or> j = 2 \<or> j = 3 \<or> j = 4 \<or> j = 5 \<or> j = 6 \<or> j = 7"
    using assms by arith
  then show ?thesis
    by (elim disjE) (simp_all add: byte_bits_def bit_value)
qed

lemma length_byte_bits [simp]: "length (byte_bits b) = 8"
  by (simp add: byte_bits_def)

lemma concat_bits_length [simp]: "length (concat (map byte_bits blob)) = 8 * length blob"
  by (induction blob) simp_all

lemma concat_bits_nth:
  "j < 8 * length blob \<Longrightarrow>
   concat (map byte_bits blob) ! j = (if bit (blob ! (j div 8)) (7 - j mod 8) then 1 else 0)"
proof (induction blob arbitrary: j)
  case Nil
  then show ?case by simp
next
  case (Cons b blob)
  show ?case
  proof (cases "j < 8")
    case True
    then show ?thesis
      by (simp add: nth_append byte_bits_nth)
  next
    case False
    then have d: "(j - 8) div 8 = j div 8 - 1" and m: "(j - 8) mod 8 = j mod 8"
      and p: "0 < j div 8"
      by (simp_all add: le_mod_geq div_greater_zero_iff)
    have "(j - 8) < 8 * length blob" using Cons.prems False by simp
    from Cons.IH [OF this] False p show ?thesis
      by (simp add: nth_append d m nth_Cons')
  qed
qed

lemma BitIn_init_bits: "in_bits (BitIn_init blob) = concat (map byte_bits blob)"
proof -
  have "byte_bits = (\<lambda>b. map (\<lambda>i. drop_bit i (uint b) AND 1) [7, 6, 5, 4, 3, 2, 1, 0])"
    by (rule ext) (simp only: byte_bits_def)
  then show ?thesis
    by (simp only: BitIn_init_def BitIn.simps)
qed

text \<open>
  C8. The bit source is total: \<open>get\<close> returns a bit on every call, and the \<open>j\<close>-th
  call on a fresh source over \<open>blob\<close> returns bit \<open>7 - j mod 8\<close> of byte \<open>j div 8\<close>
  (most significant bit first) while \<open>j\<close> is inside the buffer, and 0 on every call
  at or past its end, for any number \<open>k\<close> of calls.
\<close>

theorem bit_source_total:
  "get_many k (BitIn_init blob) =
     map (\<lambda>j. if j < 8 * length blob
               then (if bit (blob ! (j div 8)) (7 - j mod 8) then 1 else 0)
               else 0) [0..<k]"
proof -
  have "idx (BitIn_init blob) = 0" by (simp add: BitIn_init_def)
  then show ?thesis
    by (simp add: get_many_nth BitIn_init_bits concat_bits_nth cong: if_cong)
qed

section \<open>Verification: frequency counting\<close>

lemma keys_Counter_add:
  "map fst (Counter_add kvs b) = (if b \<in> set (map fst kvs) then map fst kvs else map fst kvs @ [b])"
  by (induction kvs b rule: Counter_add.induct) auto

lemma Counter_get_Counter_add:
  "Counter_get (Counter_add kvs b) s = Counter_get kvs s + (if s = b then 1 else 0)"
  by (induction kvs b rule: Counter_add.induct) (auto simp: Counter_get_def)

lemma distinct_Counter_add:
  "distinct (map fst kvs) \<Longrightarrow> distinct (map fst (Counter_add kvs b))"
  by (simp add: keys_Counter_add)

lemma Counter_fold_keys:
  "distinct (map fst kvs) \<Longrightarrow>
   distinct (map fst (foldl Counter_add kvs d)) \<and>
   set (map fst (foldl Counter_add kvs d)) = set (map fst kvs) \<union> set d"
proof (induction d arbitrary: kvs)
  case Nil
  then show ?case by simp
next
  case (Cons b d)
  have "distinct (map fst (Counter_add kvs b))"
    using Cons.prems by (rule distinct_Counter_add)
  from Cons.IH [OF this] show ?case
    by (auto simp: keys_Counter_add split: if_splits)
qed

lemma Counter_fold_get:
  "Counter_get (foldl Counter_add kvs d) s = Counter_get kvs s + count_list d s"
  by (induction d arbitrary: kvs) (simp_all add: Counter_get_Counter_add)

lemma distinct_Counter: "distinct (map fst (Counter d))"
  using Counter_fold_keys [of "[]" d] by (simp add: Counter_def)

lemma set_Counter: "set (map fst (Counter d)) = set d"
  using Counter_fold_keys [of "[]" d] by (simp add: Counter_def)

lemma Counter_get_Counter: "Counter_get (Counter d) s = count_list d s"
  using Counter_fold_get [of "[]" d s] by (simp add: Counter_def Counter_get_def)

lemma length_Counter: "length (Counter d) = card (set d)"
proof -
  have "card (set d) = card (set (map fst (Counter d)))"
    by (simp only: set_Counter)
  also have "\<dots> = length (map fst (Counter d))"
    by (rule distinct_card [OF distinct_Counter])
  finally show ?thesis by simp
qed

section \<open>Verification: the tree holds every symbol once\<close>

lemma mset_update_swap:
  assumes "i < length xs" "j < length xs"
  shows "mset (xs[i := xs ! j, j := x]) = mset (xs[i := x])"
proof (cases "i = j")
  case True
  then show ?thesis by simp
next
  case False
  have "mset (xs[i := xs ! j, j := x]) = add_mset x (mset (xs[i := xs ! j]) - {#xs ! j#})"
    using assms False by (simp add: mset_update)
  also have "\<dots> = add_mset x (mset xs - {#xs ! i#})"
    using assms by (simp add: mset_update)
  also have "\<dots> = mset (xs[i := x])"
    using assms by (simp add: mset_update)
  finally show ?thesis .
qed

lemma mset_siftdown_loop:
  "pos < length heap \<Longrightarrow>
   mset (siftdown_loop heap startpos newitem pos) = mset (heap[pos := newitem])"
proof (induction heap startpos newitem pos rule: siftdown_loop.induct)
  case (1 heap startpos newitem pos)
  show ?case
  proof (cases "pos > startpos \<and> Node_lt newitem (heap ! ((pos - 1) div 2))")
    case True
    have pp: "(pos - 1) div 2 < length heap"
      using "1.prems" by simp
    have "mset (siftdown_loop heap startpos newitem pos)
            = mset (siftdown_loop (heap[pos := heap ! ((pos - 1) div 2)]) startpos newitem ((pos - 1) div 2))"
      using True by (subst siftdown_loop.simps) (simp add: Let_def)
    also have "\<dots> = mset (heap[pos := heap ! ((pos - 1) div 2), (pos - 1) div 2 := newitem])"
      using True pp by (intro "1.IH" [OF _ refl refl]) simp_all
    also have "\<dots> = mset (heap[pos := newitem])"
      using "1.prems" pp by (rule mset_update_swap)
    finally show ?thesis .
  next
    case False
    then show ?thesis
      by (subst siftdown_loop.simps) (auto simp: Let_def)
  qed
qed

lemma mset_siftdown: "pos < length heap \<Longrightarrow> mset (siftdown heap startpos pos) = mset heap"
  by (simp add: siftdown_def mset_siftdown_loop)

lemma siftup_loop_hole:
  assumes "pos < length heap" "siftup_loop heap (length heap) pos = (heap', pos')"
  shows "pos' < length heap' \<and> length heap' = length heap \<and> mset (heap'[pos' := x]) = mset (heap[pos := x])"
  using assms
proof (induction heap "length heap" pos arbitrary: heap' pos' rule: siftup_loop.induct)
  case (1 heap pos)
  show ?case
  proof (cases "2 * pos + 1 < length heap")
    case True
    define cp where "cp = (if 2 * pos + 1 + 1 < length heap
        \<and> \<not> Node_lt (heap ! (2 * pos + 1)) (heap ! (2 * pos + 1 + 1)) then 2 * pos + 1 + 1 else 2 * pos + 1)"
    have cp: "cp < length heap" using True by (simp add: cp_def)
    have step: "siftup_loop heap (length heap) pos = siftup_loop (heap[pos := heap ! cp]) (length heap) cp"
      using True by (subst siftup_loop.simps) (simp add: Let_def cp_def)
    have "pos' < length heap' \<and> length heap' = length (heap[pos := heap ! cp])
            \<and> mset (heap'[pos' := x]) = mset (heap[pos := heap ! cp, cp := x])"
    proof (rule "1.hyps" [OF refl True refl])
      show "cp = (if 2 * pos + 1 + 1 < length heap
        \<and> \<not> Node_lt (heap ! (2 * pos + 1)) (heap ! (2 * pos + 1 + 1)) then 2 * pos + 1 + 1 else 2 * pos + 1)"
        by (rule cp_def)
      show "length heap = length (heap[pos := heap ! cp])" by simp
      show "cp < length (heap[pos := heap ! cp])" using cp by simp
      show "siftup_loop (heap[pos := heap ! cp]) (length (heap[pos := heap ! cp])) cp = (heap', pos')"
        using "1.prems"(2) step by simp
    qed
    then show ?thesis
      using mset_update_swap [OF "1.prems"(1) cp, of x] by simp
  next
    case False
    then have "siftup_loop heap (length heap) pos = (heap, pos)"
      by (subst siftup_loop.simps) (simp add: Let_def)
    then show ?thesis using "1.prems" by simp
  qed
qed

lemma mset_siftup: "pos < length heap \<Longrightarrow> mset (siftup heap pos) = mset heap"
proof -
  assume p: "pos < length heap"
  obtain heap' pos' where hp: "siftup_loop heap (length heap) pos = (heap', pos')"
    by (cases "siftup_loop heap (length heap) pos")
  from siftup_loop_hole [OF p hp, of "heap ! pos"]
  have "pos' < length heap'" and "mset (heap'[pos' := heap ! pos]) = mset heap"
    by simp_all
  then show ?thesis
    by (simp add: siftup_def Let_def hp mset_siftdown)
qed

lemma mset_heappush: "mset (heappush heap item) = add_mset item (mset heap)"
  by (simp add: heappush_def Let_def mset_siftdown)

lemma mset_heappop:
  assumes "heap \<noteq> []" "heappop heap = (x, heap')"
  shows "mset heap = add_mset x (mset heap')"
proof -
  obtain h l where hl: "heap = h @ [l]"
    using assms(1) by (cases heap rule: rev_cases) auto
  show ?thesis
  proof (cases "h = []")
    case True
    then show ?thesis using assms(2) hl by (simp add: heappop_def)
  next
    case False
    then have "x = h ! 0" "heap' = siftup (h[0 := l]) 0"
      using assms(2) hl by (simp_all add: heappop_def Let_def)
    moreover have "mset (siftup (h[0 := l]) 0) = mset (h[0 := l])"
      using False by (intro mset_siftup) simp
    moreover have "mset (h[0 := l]) = add_mset l (mset h - {#h ! 0#})"
      using False by (simp add: mset_update)
    moreover have "h ! 0 \<in># mset h"
      using False by (simp add: hd_conv_nth [symmetric])
    ultimately show ?thesis
      using hl by simp
  qed
qed

lemma heap_syms_cong: "mset h = mset h' \<Longrightarrow> heap_syms h = heap_syms h'"
  by (simp add: heap_syms_def)

lemma heap_syms_single [simp]: "heap_syms [t] = mset (leaves t)"
  by (simp add: heap_syms_def)

lemma build_loop_leaves:
  "heap \<noteq> [] \<Longrightarrow> \<exists>t. build_loop heap = [t] \<and> mset (leaves t) = heap_syms heap"
proof (induction heap rule: build_loop.induct)
  case (1 heap)
  show ?case
  proof (cases "length heap > 1")
    case True
    obtain n1 h1 where p1: "heappop heap = (n1, h1)" by (cases "heappop heap")
    obtain n2 h2 where p2: "heappop h1 = (n2, h2)" by (cases "heappop h1")
    have l1: "length h1 = length heap - 1"
      using length_heappop [of heap] by (simp add: p1)
    then have ne1: "h1 \<noteq> []" using True by auto
    have m1: "mset heap = add_mset n1 (mset h1)"
      using "1.prems" p1 by (rule mset_heappop)
    have m2: "mset h1 = add_mset n2 (mset h2)"
      using ne1 p2 by (rule mset_heappop)
    define h3 where "h3 = heappush h2 (Branch (freq n1 + freq n2) n1 n2)"
    have m3: "mset h3 = add_mset (Branch (freq n1 + freq n2) n1 n2) (mset h2)"
      by (simp add: h3_def mset_heappush)
    have ne3: "h3 \<noteq> []" using m3 by auto
    have step: "build_loop heap = build_loop h3"
      using True by (subst build_loop.simps) (simp add: p1 p2 h3_def)
    have "\<exists>t. build_loop h3 = [t] \<and> mset (leaves t) = heap_syms h3"
      using True p1 [symmetric] p2 [symmetric] ne3 unfolding h3_def
      by (intro "1.IH" [of "(n1, h1)" n1 h1 "(n2, h2)" n2 h2]) simp_all
    moreover have "heap_syms h3 = heap_syms heap"
      by (simp add: heap_syms_def m1 m2 m3)
    ultimately show ?thesis
      using step by simp
  next
    case False
    then obtain t where "heap = [t]"
      using "1.prems" by (cases heap) auto
    then show ?thesis
      by (subst build_loop.simps) simp
  qed
qed

lemma heap_syms_leaves: "heap_syms (map (\<lambda>(s, f). Leaf f s) fr) = mset (map fst fr)"
  by (induction fr) (auto simp: heap_syms_def)

lemma build_tree_leaves:
  assumes "fr \<noteq> []"
  shows "\<exists>t. build_tree fr = Inr t \<and> mset (leaves t) = mset (map fst fr)"
proof -
  define heap where "heap = map (\<lambda>(s, f). Leaf f s) fr"
  have ne: "heap \<noteq> []" using assms by (simp add: heap_def)
  obtain x h where p: "heappop heap = (x, h)" by (cases "heappop heap")
  have m: "mset (heappush h x) = mset heap"
    using mset_heappop [OF ne p] by (simp add: mset_heappush)
  then have ne2: "heappush h x \<noteq> []" using ne by auto
  obtain t where t: "build_loop (heappush h x) = [t]" "mset (leaves t) = heap_syms (heappush h x)"
    using build_loop_leaves [OF ne2] by blast
  have "heap_syms (heappush h x) = mset (map fst fr)"
    using heap_syms_cong [OF m] by (simp add: heap_def heap_syms_leaves)
  moreover have "build_tree fr = Inr t"
    using ne p t(1) by (simp add: build_tree_def Let_def heap_def [symmetric])
  ultimately show ?thesis using t(2) by simp
qed

lemma update_fresh: "k \<notin> set (map fst m) \<Longrightarrow> AList.update k v m = m @ [(k, v)]"
  by (induction m) auto

lemma dict_update_fresh:
  "distinct (map fst xs) \<Longrightarrow> set (map fst xs) \<inter> set (map fst m) = {} \<Longrightarrow>
   dict_update m xs = m @ xs"
proof (induction xs arbitrary: m)
  case Nil
  then show ?case by (simp add: dict_update_def)
next
  case (Cons kv xs)
  have f: "fst kv \<notin> set (map fst m)" using Cons.prems by auto
  have "dict_update m (kv # xs) = dict_update (m @ [kv]) xs"
    by (simp add: dict_update_def update_fresh [OF f])
  also have "\<dots> = (m @ [kv]) @ xs"
    using Cons.prems by (intro Cons.IH) auto
  finally show ?case by simp
qed

lemma keys_paths [simp]: "map fst (paths t) = leaves t"
  by (induction t) (simp_all add: case_prod_unfold comp_def)

lemma build_code_map_paths:
  "distinct (leaves t) \<Longrightarrow> pfx \<noteq> [] \<Longrightarrow>
   build_code_map t pfx = map (\<lambda>(s, c). (s, pfx @ c)) (paths t)"
proof (induction t arbitrary: pfx)
  case (Leaf f s)
  then show ?case by simp
next
  case (Branch f l r)
  have l: "build_code_map l (pfx @ [False]) = map (\<lambda>(s, c). (s, (pfx @ [False]) @ c)) (paths l)"
    using Branch.prems by (intro Branch.IH) simp_all
  have r: "build_code_map r (pfx @ [True]) = map (\<lambda>(s, c). (s, (pfx @ [True]) @ c)) (paths r)"
    using Branch.prems by (intro Branch.IH) simp_all
  have kl: "map fst (build_code_map l (pfx @ [False])) = leaves l"
    by (simp add: l case_prod_unfold comp_def flip: keys_paths)
  have kr: "map fst (build_code_map r (pfx @ [True])) = leaves r"
    by (simp add: r case_prod_unfold comp_def flip: keys_paths)
  have 1: "dict_update [] (build_code_map l (pfx @ [False])) = build_code_map l (pfx @ [False])"
    using Branch.prems dict_update_fresh [of "build_code_map l (pfx @ [False])" "[]"] by (simp add: kl)
  have 2: "dict_update (build_code_map l (pfx @ [False])) (build_code_map r (pfx @ [True]))
             = build_code_map l (pfx @ [False]) @ build_code_map r (pfx @ [True])"
    using Branch.prems by (intro dict_update_fresh) (auto simp: kl kr)
  have "build_code_map (Branch f l r) pfx
          = build_code_map l (pfx @ [False]) @ build_code_map r (pfx @ [True])"
    by (simp only: build_code_map.simps Let_def 1 2)
  then show ?case
    by (simp add: l r case_prod_unfold comp_def)
qed

lemma build_code_map_root:
  "distinct (leaves (Branch f l r)) \<Longrightarrow> build_code_map (Branch f l r) [] = paths (Branch f l r)"
proof -
  assume d: "distinct (leaves (Branch f l r))"
  have l: "build_code_map l [False] = map (\<lambda>(s, c). (s, [False] @ c)) (paths l)"
    using d by (intro build_code_map_paths) simp_all
  have r: "build_code_map r [True] = map (\<lambda>(s, c). (s, [True] @ c)) (paths r)"
    using d by (intro build_code_map_paths) simp_all
  have kl: "map fst (build_code_map l [False]) = leaves l"
    by (simp add: l case_prod_unfold comp_def flip: keys_paths)
  have kr: "map fst (build_code_map r [True]) = leaves r"
    by (simp add: r case_prod_unfold comp_def flip: keys_paths)
  have 1: "dict_update [] (build_code_map l [False]) = build_code_map l [False]"
    using d dict_update_fresh [of "build_code_map l [False]" "[]"] by (simp add: kl)
  have 2: "dict_update (build_code_map l [False]) (build_code_map r [True])
             = build_code_map l [False] @ build_code_map r [True]"
    using d by (intro dict_update_fresh) (auto simp: kl kr)
  have "build_code_map (Branch f l r) [] = build_code_map l [False] @ build_code_map r [True]"
    by (simp only: build_code_map.simps Let_def 1 2 append_Nil)
  then show ?thesis
    by (simp add: l r)
qed

lemma canonical_loop_keys:
  "distinct order \<Longrightarrow> set order \<inter> set (map fst canonical) = {} \<Longrightarrow>
   map fst (canonical_loop lengths order code prev_len canonical) = map fst canonical @ order"
proof (induction order arbitrary: code prev_len canonical)
  case Nil
  then show ?case by simp
next
  case (Cons s order)
  have f: "s \<notin> set (map fst canonical)" using Cons.prems by auto
  show ?case
    using Cons.prems by (simp add: Let_def update_fresh [OF f] Cons.IH)
qed

lemma to_canonical_keys:
  "distinct (map fst code_map) \<Longrightarrow>
   map fst (fst (to_canonical code_map))
     = sort_key (\<lambda>s. (dict_get (snd (to_canonical code_map)) s, s)) (map fst code_map)"
  by (simp add: to_canonical_def Let_def canonical_loop_keys)

lemma length_to_canonical:
  "distinct (map fst code_map) \<Longrightarrow> length (fst (to_canonical code_map)) = length code_map"
proof -
  assume "distinct (map fst code_map)"
  then have "length (map fst (fst (to_canonical code_map))) = length code_map"
    by (simp only: to_canonical_keys length_sort length_map)
  then show ?thesis by simp
qed

lemma tree_of_two:
  assumes "2 \<le> length (leaves t)"
  obtains f l r where "t = Branch f l r"
  using assms by (cases t) auto

lemma huffman_tree:
  assumes "2 \<le> card (set d)"
  obtains t where "build_tree (Counter d) = Inr t" "distinct (leaves t)" "set (leaves t) = set d"
    "length (leaves t) = card (set d)" "build_code_map t [] = paths t"
proof -
  have ne: "Counter d \<noteq> []"
    using assms length_Counter [of d] by auto
  obtain t where t: "build_tree (Counter d) = Inr t" "mset (leaves t) = mset (map fst (Counter d))"
    using build_tree_leaves [OF ne] by blast
  have dist: "distinct (leaves t)"
    using t(2) distinct_Counter [of d] by (metis mset_eq_imp_distinct_iff)
  have st: "set (leaves t) = set d"
    using t(2) set_Counter [of d] by (metis mset_eq_setD)
  have len: "length (leaves t) = card (set d)"
    using dist st by (metis distinct_card)
  have "2 \<le> length (leaves t)"
    using assms len by simp
  then obtain f l r where b: "t = Branch f l r"
    by (rule tree_of_two)
  have "build_code_map t [] = paths t"
    using dist unfolding b by (rule build_code_map_root)
  with t(1) dist st len show ?thesis
    by (rule that)
qed

lemma huffman_256:
  assumes "card (set d) = 256"
  shows "HuffmanCoder_encode d = (if length d < 4294967296 then Inl ValueError else Inl OverflowError)"
proof -
  have two: "2 \<le> card (set d)" using assms by simp
  obtain t where t: "build_tree (Counter d) = Inr t" "distinct (leaves t)"
    "length (leaves t) = card (set d)" "build_code_map t [] = paths t"
    using huffman_tree [OF two] by blast
  have dp: "distinct (map fst (paths t))" using t(2) by simp
  have "length (fst (to_canonical (paths t))) = 256"
    using length_to_canonical [OF dp] t(3) assms
    by (metis keys_paths length_map)
  moreover obtain canon lengths where c: "to_canonical (paths t) = (canon, lengths)"
    by (cases "to_canonical (paths t)")
  ultimately have lc: "length canon = 256" by simp
  have ne: "d \<noteq> []" using assms by auto
  have l1: "length (Counter d) \<noteq> 1" using assms by (simp add: length_Counter)
  show ?thesis
    using ne l1 by (simp add: HuffmanCoder_encode_def Let_def t c lc to_bytes_def bytes1_def)
qed

lemma arithmetic_256:
  assumes "card (set d) = 256"
  shows "ArithmeticCoder_encode d = (if length d < 4294967296 then Inl ValueError else Inl OverflowError)"
proof -
  have ne: "d \<noteq> []" using assms by auto
  have l1: "length (Counter d) = 256" using assms by (simp add: length_Counter)
  show ?thesis
    using ne l1 by (simp add: ArithmeticCoder_encode_def Let_def to_bytes_def bytes1_def
        split: prod.split)
qed

section \<open>Verification: inputs with all 256 byte values\<close>

lemma set_all_bytes: "set (map of_nat [0..<256] :: byte list) = UNIV"
  using UNIV_word_eq_word_of_nat [where 'a = 8] by simp

lemma card_all_bytes: "card (UNIV :: byte set) = 256"
  by (simp add: card_word)

text \<open>
  C10, as the code has it. For every input with exactly 256 distinct byte values both
  encoders raise and return no blob: ValueError from \<open>bytes([256])\<close>, the one-byte
  count of distinct symbols, when the input is shorter than \<open>2^32\<close> bytes; for a longer
  input the 4-byte length field, written just before, raises OverflowError first.
\<close>

theorem encode_256_symbols:
  assumes "card (set d) = 256"
  shows "HuffmanCoder_encode d
           = (if length d < 4294967296 then Inl ValueError else Inl OverflowError)
       \<and> ArithmeticCoder_encode d
           = (if length d < 4294967296 then Inl ValueError else Inl OverflowError)"
  using assms huffman_256 arithmetic_256 by blast

theorem encode_256_symbols_witness:
  "card (set (rev (map of_nat [0..<256]) :: byte list)) = 256
   \<and> HuffmanCoder_encode (rev (map of_nat [0..<256])) = Inl ValueError
   \<and> ArithmeticCoder_encode (rev (map of_nat [0..<256])) = Inl ValueError"
proof -
  have c: "card (set (rev (map of_nat [0..<256]) :: byte list)) = 256"
    by (simp only: set_rev set_all_bytes card_all_bytes)
  show ?thesis
    using c encode_256_symbols [OF c] by simp
qed

text \<open>
  C10 as stated fails on an input of \<open>2^32 + 256\<close> bytes with all 256 values: the
  error is raised at the length field, not at the count field.
\<close>

theorem encode_256_symbols_counterexample:
  "card (set (replicate 4294967296 0 @ map of_nat [0..<256] :: byte list)) = 256
   \<and> HuffmanCoder_encode (replicate 4294967296 0 @ map of_nat [0..<256]) = Inl OverflowError
   \<and> ArithmeticCoder_encode (replicate 4294967296 0 @ map of_nat [0..<256]) = Inl OverflowError"
proof -
  have "set (replicate 4294967296 0 @ map of_nat [0..<256] :: byte list) = UNIV"
    by (simp only: set_append set_all_bytes) simp
  then have c: "card (set (replicate 4294967296 0 @ map of_nat [0..<256] :: byte list)) = 256"
    by (simp only: card_all_bytes)
  show ?thesis
    using c huffman_256 [OF c] arithmetic_256 [OF c] by simp
qed

text \<open>
  C1 at the input that holds every byte value once: both encoders raise ValueError, so
  there is no blob to decode and the round trip does not hold there.
\<close>

theorem round_trip_fails_all_bytes:
  "HuffmanCoder_encode (map of_nat [0..<256]) = Inl ValueError
   \<and> ArithmeticCoder_encode (map of_nat [0..<256]) = Inl ValueError"
proof -
  have c: "card (set (map of_nat [0..<256] :: byte list)) = 256"
    by (simp only: set_all_bytes card_all_bytes)
  show ?thesis
    using huffman_256 [OF c] arithmetic_256 [OF c] by simp
qed

section \<open>Verification: tree construction\<close>

text \<open>
  C6 at the input \<open>1 1 2 2 2 3 3 3 3 4 5 5\<close> (frequencies 2, 3, 4, 1, 2 in order of
  first occurrence). The first two nodes extracted are the leaves of frequency 3 and 1,
  while two leaves of frequency 2 stay in the heap: the list built from the counter is
  not a heap, and \<open>heappush(heap, heappop(heap))\<close> does not make it one. The tree that
  results is given too. Last, an internal node is not less than a leaf of equal
  frequency with symbol 0: both have the key \<open>-1\<close>.
\<close>

theorem build_tree_not_two_lowest:
  "first_merge [1, 1, 2, 2, 2, 3, 3, 3, 3, 4, 5, 5]
     = (Leaf 3 2, Leaf 1 4, [Leaf 2 1, Leaf 2 5, Leaf 4 3])
   \<and> build_tree (Counter [1, 1, 2, 2, 2, 3, 3, 3, 3, 4, 5, 5])
     = Inr (Branch 12 (Leaf 4 3)
              (Branch 8 (Branch 4 (Leaf 3 2) (Leaf 1 4)) (Branch 4 (Leaf 2 1) (Leaf 2 5))))
   \<and> \<not> Node_lt (Branch 2 (Leaf 1 1) (Leaf 1 2)) (Leaf 2 0)"
proof (intro conjI)
  show "first_merge [1, 1, 2, 2, 2, 3, 3, 3, 3, 4, 5, 5]
     = (Leaf 3 2, Leaf 1 4, [Leaf 2 1, Leaf 2 5, Leaf 4 3])"
    by code_simp
  show "build_tree (Counter [1, 1, 2, 2, 2, 3, 3, 3, 3, 4, 5, 5])
     = Inr (Branch 12 (Leaf 4 3)
              (Branch 8 (Branch 4 (Leaf 3 2) (Leaf 1 4)) (Branch 4 (Leaf 2 1) (Leaf 2 5))))"
    by code_simp
  show "\<not> Node_lt (Branch 2 (Leaf 1 1) (Leaf 1 2)) (Leaf 2 0)"
    by (simp add: Node_lt_def)
qed

section \<open>Verification: the narrowing step and the final bit\<close>

lemma floor_quotient: "\<lfloor>real_of_int r * real c / real tot\<rfloor> = r * int c div int tot"
proof -
  have "real_of_int r * real c / real tot = real_of_int (r * int c) / real_of_int (int tot)"
    by simp
  then show ?thesis
    by (simp only: floor_divide_of_int_eq)
qed

lemma narrow_eq_spec: "narrow low high c f tot = narrow_spec low high c f tot"
  by (simp add: narrow_def narrow_spec_def floor_quotient)

lemma emit_final_bits:
  "final_emit low pending bout =
     (let fb = (if low < 2 ^ 30 then 0 else 1)
      in (bout\<lparr>bits := bits bout @ [fb] @ replicate (pending + 1) (1 - fb)\<rparr>, 0))"
  by (simp add: final_emit_def emit_def BitOut_put_def BitOut_extend_def QTR_eq Let_def)

section \<open>Verification: canonical codes\<close>









lemma kraft_Cons [simp]: "kraft ((s, l) # ps) = (1 / 2) ^ l + kraft ps"
  by (simp add: kraft_def)

lemma kraft_Nil [simp]: "kraft [] = 0"
  by (simp add: kraft_def)



lemma cvals_keys [simp]: "map fst (cvals ps code prev_len) = map fst ps"
  by (induction ps code prev_len rule: cvals.induct) (simp_all add: Let_def)









lemma depths_Leaf [simp]: "depths (Leaf f s) = [(s, 0)]"
  by (simp add: depths_def)

lemma depths_Branch [simp]:
  "depths (Branch f l r) = map (\<lambda>(s, n). (s, Suc n)) (depths l) @ map (\<lambda>(s, n). (s, Suc n)) (depths r)"
  by (simp add: depths_def case_prod_unfold comp_def)

lemma kraft_append [simp]: "kraft (ps @ qs) = kraft ps + kraft qs"
  by (simp add: kraft_def)




lemma keys_depths [simp]: "map fst (depths t) = leaves t"
  by (simp add: depths_def case_prod_unfold comp_def flip: keys_paths)

lemma leaves_nonempty [simp]: "leaves t \<noteq> []"
  by (induction t) simp_all




lemma dict_get_distinct:
  "distinct (map fst ps) \<Longrightarrow> (k, v) \<in> set ps \<Longrightarrow> dict_get ps k = v"
  by (simp add: dict_get_def)



section \<open>Verification: the canonical map and the decoder table\<close>





















section \<open>Verification: Huffman \<open>decode\<close> on the blob of \<open>encode\<close>\<close>

subsection \<open>Packed bits read back\<close>








subsection \<open>The layout of the blob\<close>





subsection \<open>\<open>decode\<close> on the blob, with any bytes in place of the serialised bit patterns\<close>


lemma RUN_nonempty: "RUN \<noteq> []" "[] \<noteq> RUN"
  by (simp_all add: RUN_def)

lemma decode_table_link:
  shows "decode_table blob = Inl e \<Longrightarrow> HuffmanCoder_decode blob = Inl e"
    and "decode_table blob = Inr None \<Longrightarrow>
           blob = [] \<and> HuffmanCoder_decode blob = Inr []
         \<or> take 3 blob = RUN
             \<and> HuffmanCoder_decode blob = Inr (replicate (from_bytes (slice blob 4 8)) (blob ! 3))"
    and "decode_table blob = Inr (Some T) \<Longrightarrow>
           \<exists>symbols lengths i. read_pairs blob (unat (blob ! 4)) 5 [] [] = Inr (symbols, lengths, i)
              \<and> T = build_table symbols lengths
              \<and> blob \<noteq> [] \<and> take 3 blob \<noteq> RUN \<and> 4 < length blob"
  by (simp_all add: decode_table_def HuffmanCoder_decode_def Let_def RUN_nonempty
      split: if_splits sum.splits prod.splits)








section \<open>Verification: the tables of the arithmetic encoder\<close>

lemma keys_cumpairs [simp]: "map fst (cumpairs F run ss) = ss"
  by (induction ss arbitrary: run) simp_all

lemma cumpairs_bounds:
  "(s, c) \<in> set (cumpairs F run ss) \<Longrightarrow> run \<le> c \<and> c + F s \<le> run + sum_list (map F ss)"
proof (induction ss arbitrary: run)
  case Nil
  then show ?case by simp
next
  case (Cons a ss)
  from Cons.prems have "(s, c) = (a, run) \<or> (s, c) \<in> set (cumpairs F (run + F a) ss)"
    by simp
  then show ?case
  proof
    assume "(s, c) = (a, run)"
    then show ?thesis by simp
  next
    assume "(s, c) \<in> set (cumpairs F (run + F a) ss)"
    from Cons.IH [OF this] show ?thesis by simp
  qed
qed

lemma running_sums_zip:
  assumes "length pre = k" "length acc = Suc k" "last acc = run"
  shows "zip (pre @ ss) (running_sums fr ss run acc) = zip pre acc @ cumpairs (Counter_get fr) run ss
   \<and> last (running_sums fr ss run acc) = run + sum_list (map (Counter_get fr) ss)"
  using assms
proof (induction ss arbitrary: run acc pre k)
  case Nil
  then show ?case by simp
next
  case (Cons s ss)
  have "zip ((pre @ [s]) @ ss) (running_sums fr ss (run + Counter_get fr s) (acc @ [run + Counter_get fr s]))
          = zip (pre @ [s]) (acc @ [run + Counter_get fr s])
              @ cumpairs (Counter_get fr) (run + Counter_get fr s) ss
      \<and> last (running_sums fr ss (run + Counter_get fr s) (acc @ [run + Counter_get fr s]))
          = (run + Counter_get fr s) + sum_list (map (Counter_get fr) ss)"
    using Cons.prems by (intro Cons.IH [where pre = "pre @ [s]" and k = "Suc k"]) simp_all
  moreover have "zip (pre @ [s]) (acc @ [run + Counter_get fr s]) = zip pre acc @ [(s, run)]"
  proof -
    obtain acc' where acc: "acc = acc' @ [run]"
      using Cons.prems(2,3) by (cases acc rule: rev_cases) auto
    then have "length acc' = length pre" using Cons.prems by simp
    then show ?thesis by (simp add: acc zip_append2)
  qed
  ultimately show ?case
    by (simp add: Let_def)
qed

lemma encoder_tables:
  assumes fr_def: "fr = Counter data"
    and symbols_def: "symbols = sort (map fst fr)"
    and csums_def: "csums = running_sums fr symbols 0 [0]"
    and cum_def: "cum = dict_update [] (zip symbols csums)"
  shows "last csums = length data"
    and "\<forall>b \<in> set data. 0 < Counter_get fr b \<and> dict_get cum b + Counter_get fr b \<le> last csums"
proof -
  have ds: "distinct symbols" using distinct_Counter [of data] by (simp add: symbols_def fr_def)
  have ss: "set symbols = set data" using set_Counter [of data] by (simp add: symbols_def fr_def)
  have z: "zip ([] @ symbols) csums = zip [] [0] @ cumpairs (Counter_get fr) 0 symbols
      \<and> last csums = 0 + sum_list (map (Counter_get fr) symbols)"
    unfolding csums_def by (rule running_sums_zip [where k = 0]) simp_all
  then have zp: "zip symbols csums = cumpairs (Counter_get fr) 0 symbols"
    and ls: "last csums = sum_list (map (Counter_get fr) symbols)"
    by simp_all
  have "sum_list (map (Counter_get fr) symbols) = sum (count_list data) (set symbols)"
    using ds by (simp add: sum_list_distinct_conv_sum_set fr_def Counter_get_Counter [abs_def])
  also have "\<dots> = length data"
    unfolding ss by (rule sum_count_set) simp_all
  finally show tot: "last csums = length data" using ls by simp
  have cm: "cum = cumpairs (Counter_get fr) 0 symbols"
    unfolding cum_def zp using ds dict_update_fresh [of "cumpairs (Counter_get fr) 0 symbols" "[]"]
    by simp
  show "\<forall>b \<in> set data. 0 < Counter_get fr b \<and> dict_get cum b + Counter_get fr b \<le> last csums"
  proof
    fix b assume b: "b \<in> set data"
    then have "count_list data b \<noteq> 0"
      by (simp only: count_list_0_iff not_not)
    then have pos: "0 < Counter_get fr b"
      by (simp add: fr_def Counter_get_Counter)
    have "b \<in> set (map fst cum)" using b ss by (simp add: cm)
    then obtain c where c: "(b, c) \<in> set cum" by auto
    have dc: "distinct (map fst cum)" using ds by (simp add: cm)
    have g: "dict_get cum b = c" using dc c by (rule dict_get_distinct)
    have "c + Counter_get fr b \<le> 0 + sum_list (map (Counter_get fr) symbols)"
      using cumpairs_bounds [of b c "Counter_get fr" 0 symbols] c by (simp add: cm)
    then show "0 < Counter_get fr b \<and> dict_get cum b + Counter_get fr b \<le> last csums"
      using pos by (simp add: g ls)
  qed
qed

lemma dict_get_cumpairs:
  assumes "sorted ss" "distinct ss" "b \<in> set ss"
  shows "dict_get (cumpairs F run ss) b = run + sum_list (map F (filter (\<lambda>s. s < b) ss))"
  using assms
proof (induction ss arbitrary: run)
  case Nil
  then show ?case by simp
next
  case (Cons a ss)
  show ?case
  proof (cases "b = a")
    case True
    have "\<forall>x \<in> set ss. \<not> x < a" using Cons.prems(1) by auto
    then have "filter (\<lambda>s. s < a) ss = []" by (simp add: filter_empty_conv)
    then show ?thesis using True by (simp add: dict_get_def)
  next
    case False
    then have b: "b \<in> set ss" using Cons.prems(3) by simp
    then have "a \<le> b" using Cons.prems(1) by auto
    then have ab: "a < b" using False by simp
    have "dict_get (cumpairs F (run + F a) ss) b
            = run + F a + sum_list (map F (filter (\<lambda>s. s < b) ss))"
      using Cons.prems b by (intro Cons.IH) simp_all
    then show ?thesis using False ab by (simp add: dict_get_def)
  qed
qed

lemma sorted_symbols: "sort (map fst (Counter data)) = sort (remdups data)"
proof (rule sorted_distinct_set_unique)
  show "sorted (sort (map fst (Counter data)))" by simp
  show "distinct (sort (map fst (Counter data)))" using distinct_Counter [of data] by simp
  show "sorted (sort (remdups data))" by simp
  show "distinct (sort (remdups data))" by simp
  show "set (sort (map fst (Counter data))) = set (sort (remdups data))"
    using set_Counter [of data] by simp
qed

lemma encoder_cum:
  assumes fr_def: "fr = Counter data"
    and symbols_def: "symbols = sort (map fst fr)"
    and csums_def: "csums = running_sums fr symbols 0 [0]"
    and cum_def: "cum = dict_update [] (zip symbols csums)"
  shows "cum = cumpairs (Counter_get fr) 0 symbols"
proof -
  have ds: "distinct symbols" using distinct_Counter [of data] by (simp add: symbols_def fr_def)
  have z: "zip ([] @ symbols) csums = zip [] [0] @ cumpairs (Counter_get fr) 0 symbols
      \<and> last csums = 0 + sum_list (map (Counter_get fr) symbols)"
    unfolding csums_def by (rule running_sums_zip [where k = 0]) simp_all
  then have zp: "zip symbols csums = cumpairs (Counter_get fr) 0 symbols"
    by simp
  show ?thesis
    unfolding cum_def zp using ds dict_update_fresh [of "cumpairs (Counter_get fr) 0 symbols" "[]"]
    by simp
qed

lemma encoder_cum_spec:
  assumes fr_def: "fr = Counter data"
    and symbols_def: "symbols = sort (map fst fr)"
    and csums_def: "csums = running_sums fr symbols 0 [0]"
    and cum_def: "cum = dict_update [] (zip symbols csums)"
    and b: "b \<in> set data"
  shows "dict_get cum b = cum_spec data b"
proof -
  have cm: "cum = cumpairs (Counter_get fr) 0 symbols"
    using fr_def symbols_def csums_def cum_def by (rule encoder_cum)
  have ss: "symbols = sort (remdups data)"
    by (simp only: symbols_def fr_def sorted_symbols)
  have F: "Counter_get fr = count_list data"
    by (rule ext) (simp add: fr_def Counter_get_Counter)
  have "dict_get (cumpairs (count_list data) 0 (sort (remdups data))) b
          = 0 + sum_list (map (count_list data) (filter (\<lambda>s. s < b) (sort (remdups data))))"
    using b by (intro dict_get_cumpairs) simp_all
  then show ?thesis
    by (simp add: cm ss F cum_spec_def)
qed

lemma encode_loop_spec:
  assumes "\<forall>b \<in> set xs. dict_get cum b = cum_spec data b"
  shows "encode_loop cum (Counter data) (length data) xs low high pending bout
           = foldl (spec_step data) (low, high, pending, bout) xs"
  using assms
proof (induction xs arbitrary: low high pending bout)
  case Nil
  show ?case by simp
next
  case (Cons b xs)
  have c: "dict_get cum b = cum_spec data b" using Cons.prems by simp
  have r: "\<forall>b \<in> set xs. dict_get cum b = cum_spec data b" using Cons.prems by simp
  show ?case
    by (simp add: Cons.IH [OF r] spec_step_def narrow_eq_spec c Counter_get_Counter
        Let_def split: prod.split)
qed

lemma final_emit_spec:
  "fst (final_emit low pending bout) = \<lparr>bits = spec_final_bits (low, high, pending, bout)\<rparr>"
  by (simp add: emit_final_bits spec_final_bits_def Let_def)

lemma length_write_table:
  "write_table ss fr = Inr bs \<Longrightarrow> length bs = 5 * length ss"
proof (induction ss arbitrary: bs)
  case Nil
  then show ?case by simp
next
  case (Cons s ss)
  from Cons.prems obtain f4 bs' where
    f4: "to_bytes (Counter_get fr s) 4 = Inr f4" and bs': "write_table ss fr = Inr bs'"
    and bs: "bs = [s] @ f4 @ bs'"
    by (auto split: sum.splits)
  have "length f4 = 4" using f4 by (rule length_to_bytes)
  then show ?case using Cons.IH [OF bs'] by (simp add: bs)
qed

section \<open>Verification: the narrowing step and the final bit in \<open>encode\<close>\<close>

text \<open>
  C2. For an input with at least two distinct symbols for which \<open>encode\<close> returns a
  blob, the bit stream that follows the header (4 bytes of length, 1 byte of count and
  5 bytes for each distinct symbol) is the one the specification describes: starting
  from \<open>low = 0\<close>, \<open>high = 2^32 - 1\<close>, \<open>pending = 0\<close> and no bits, each input byte
  \<open>b\<close> in turn narrows the interval by
  \<open>low := low + floor(r * cum[b] / total)\<close> and then
  \<open>high := low + floor(r * freq[b] / total) - 1\<close> with \<open>r = high - low + 1\<close> taken
  before and the updated \<open>low\<close> used for \<open>high\<close>, the quotients exact, and the interval
  is normalised; after the last symbol \<open>pending\<close> is incremented once more and one
  final bit is emitted, 0 if \<open>low < 2^30\<close> and 1 otherwise, followed by the pending
  bits as its complement; the bits are then packed into bytes.
\<close>

theorem encoder_narrowing_and_final_bit:
  assumes "2 \<le> card (set data)" and "ArithmeticCoder_encode data = Inr blob"
  shows "drop (5 + 5 * card (set data)) blob
           = BitOut_finish \<lparr>bits = spec_final_bits
               (foldl (spec_step data) (0, 4294967295, 0, BitOut_init) data)\<rparr>"
proof -
  define fr where "fr = Counter data"
  define symbols where "symbols = sort (map fst fr)"
  define csums where "csums = running_sums fr symbols 0 [0]"
  define cum where "cum = dict_update [] (zip symbols csums)"
  have ne: "data \<noteq> []" using assms(1) by auto
  have l1: "length (Counter data) \<noteq> 1" using assms(1) by (simp add: length_Counter)
  have tot: "last csums = length data"
    by (rule encoder_tables(1) [OF fr_def symbols_def csums_def cum_def])
  have cs: "\<forall>b \<in> set data. dict_get cum b = cum_spec data b"
    using encoder_cum_spec [OF fr_def symbols_def csums_def cum_def] by blast
  define st where "st = foldl (spec_step data) (0, 4294967295, 0, BitOut_init) data"
  have lp: "encode_loop cum fr (last csums) data 0 (TOP - 1) 0 BitOut_init = st"
    unfolding tot fr_def st_def using encode_loop_spec [OF cs] by (simp add: TOP_eq)
  obtain low high pending bout where s4: "st = (low, high, pending, bout)"
    by (cases st) auto
  have fe: "fst (final_emit low pending bout) = \<lparr>bits = spec_final_bits st\<rparr>"
    unfolding s4 by (rule final_emit_spec)
  have ls: "length symbols = card (set data)"
    by (simp add: symbols_def fr_def length_Counter)
  from assms(2) obtain b_size b_count b_table where
    h: "to_bytes (length data) 4 = Inr b_size" "bytes1 (length symbols) = Inr b_count"
       "write_table symbols fr = Inr b_table"
    and blob: "blob = b_size @ b_count @ b_table @ BitOut_finish (fst (final_emit low pending bout))"
    using ne l1 lp
    by (auto simp: ArithmeticCoder_encode_def Let_def fr_def [symmetric] symbols_def [symmetric]
        csums_def [symmetric] cum_def [symmetric] s4 split: sum.splits prod.splits)
  have "length b_size = 4" using h(1) by (rule length_to_bytes)
  moreover have "length b_count = 1" using h(2) by (auto simp: bytes1_def split: if_splits)
  moreover have "length b_table = 5 * card (set data)"
    using length_write_table [OF h(3)] by (simp add: ls)
  ultimately show ?thesis
    by (simp add: blob fe st_def)
qed

theorem encoder_narrowing_and_final_bit_witness:
  "2 \<le> card (set [0, 0, 1, 0, 2 :: byte])
   \<and> ArithmeticCoder_encode [0, 0, 1, 0, 2]
       = Inr [0, 0, 0, 5, 3, 0, 0, 0, 0, 3, 1, 0, 0, 0, 1, 2, 0, 0, 0, 1, 65]
   \<and> [65] = BitOut_finish \<lparr>bits = spec_final_bits
               (foldl (spec_step [0, 0, 1, 0, 2]) (0, 4294967295, 0, BitOut_init) [0, 0, 1, 0, 2])\<rparr>"
proof -
  have h: "2 \<le> card (set [0, 0, 1, 0, 2 :: byte])"
    by code_simp
  have e: "ArithmeticCoder_encode [0, 0, 1, 0, 2]
       = Inr [0, 0, 0, 5, 3, 0, 0, 0, 0, 3, 1, 0, 0, 0, 1, 2, 0, 0, 0, 1, 65]"
    by code_simp
  have k: "5 + 5 * card (set [0, 0, 1, 0, 2 :: byte]) = 20"
    by code_simp
  have dr: "drop 20 [0, 0, 0, 5, 3, 0, 0, 0, 0, 3, 1, 0, 0, 0, 1, 2, 0, 0, 0, 1, 65 :: byte] = [65]"
    by simp
  have "[65] = BitOut_finish \<lparr>bits = spec_final_bits
               (foldl (spec_step [0, 0, 1, 0, 2]) (0, 4294967295, 0, BitOut_init) [0, 0, 1, 0, 2])\<rparr>"
    using encoder_narrowing_and_final_bit [OF h e] by (simp only: k dr)
  then show ?thesis
    using h e by (intro conjI)
qed

section \<open>Verification: the interval of the arithmetic coder\<close>

subsection \<open>The normalisation loop\<close>

lemma normalize_trace_nonempty [simp]: "normalize_trace low high \<noteq> []"
  by (subst normalize_trace.simps) simp








subsection \<open>The intervals of \<open>encode\<close>\<close>






subsection \<open>The intervals of \<open>decode\<close>\<close>




lemma find_symbol_in:
  "find_symbol cum fr scaled xs s0 = Some s \<Longrightarrow> s \<in> set xs \<or> s0 = Some s"
  by (induction xs arbitrary: s0) (auto split: if_splits)



subsection \<open>\<open>decode\<close> on the blob of \<open>encode\<close>\<close>








subsection \<open>An input longer than the interval is wide\<close>






end
